theory Spec2Isabelle
  imports Complex_Main
begin

section \<open>Data preparation (cell \<open>physical-sarah\<close>)\<close>

text \<open>
  The raw columns \<open>t\<close> and \<open>y\<close> are arrays of double precision values that may hold NaN and
  the infinities (the CO2 column has missing weeks). Only the classification of a value
  (finite or not) and the comparison \<open>t < 1996\<close> are used, so a finite value is carried
  as the real number it denotes.
\<close>

datatype flt = Num real | PInf | NInf | NaN

fun isfinite :: "flt \<Rightarrow> bool" where
  "isfinite (Num r) = True"
| "isfinite PInf = False"
| "isfinite NInf = False"
| "isfinite NaN = False"

text \<open>The comparison \<open><\<close> of two floating point values: false as soon as one side is NaN.\<close>

fun flt_less :: "flt \<Rightarrow> flt \<Rightarrow> bool" where
  "flt_less NaN b = False"
| "flt_less a NaN = False"
| "flt_less (Num a) (Num b) = (a < b)"
| "flt_less (Num a) PInf = True"
| "flt_less (Num a) NInf = False"
| "flt_less PInf b = False"
| "flt_less NInf NInf = False"
| "flt_less NInf b = True"

text \<open>Elementwise \<open>&\<close> of two boolean arrays of the same length.\<close>

definition and_arr :: "bool list \<Rightarrow> bool list \<Rightarrow> bool list" where
  "and_arr a b = map (\<lambda>(p, q). p \<and> q) (zip a b)"

text \<open>\<open>a[m]\<close> for a boolean mask \<open>m\<close>: the entries of \<open>a\<close> at the positions where \<open>m\<close> holds.\<close>

definition bool_index :: "'a list \<Rightarrow> bool list \<Rightarrow> 'a list" where
  "bool_index a m = map fst (filter snd (zip a m))"

text \<open>\<open>a[::4]\<close>: the entries at positions 0, 4, 8, ...\<close>

fun stride4 :: "'a list \<Rightarrow> 'a list" where
  "stride4 [] = []"
| "stride4 (x # xs) = x # stride4 (drop 3 xs)"

datatype py_error = IndexError | ShapeError

text \<open>
  \<^verbatim>\<open>m = jnp.isfinite(t) & jnp.isfinite(y) & (t < 1996)\<close>
  \<^verbatim>\<open>t, y = t[m][::4], y[m][::4]\<close>
  For columns of different lengths: a column of length 1 broadcasts against the other
  one, so the mask has the length of the other one. A mask of length 0 selects nothing
  from any array, so a column of length 1 against an empty one gives two empty arrays.
  Any other mask of the wrong length raises \<open>IndexError\<close> at \<open>t[m]\<close> or at \<open>y[m]\<close>. Two
  different lengths with neither of them 1 do not broadcast, and \<open>&\<close> raises.
\<close>

definition mask :: "flt list \<Rightarrow> flt list \<Rightarrow> bool list" where
  "mask t y = and_arr (and_arr (map isfinite t) (map isfinite y))
                      (map (\<lambda>v. flt_less v (Num 1996)) t)"

definition select_data :: "flt list \<Rightarrow> flt list \<Rightarrow> py_error + (flt list \<times> flt list)" where
  "select_data t y =
     (if length t = length y
      then let m = mask t y in Inr (stride4 (bool_index t m), stride4 (bool_index y m))
      else if (length t = 1 \<and> length y = 0) \<or> (length t = 0 \<and> length y = 1) then Inr ([], [])
      else if length t = 1 \<or> length y = 1 then Inl IndexError
      else Inl ShapeError)"

text \<open>
  The selection as the specification words it: keep the pairs that are finite in both
  coordinates and lie before 1996, in their order, then take every fourth of them,
  starting with the first.
\<close>

definition valid_pair :: "flt \<times> flt \<Rightarrow> bool" where
  "valid_pair p = (isfinite (fst p) \<and> isfinite (snd p) \<and> flt_less (fst p) (Num 1996))"

definition every_fourth :: "'a list \<Rightarrow> 'a list" where
  "every_fourth ps = map (\<lambda>k. ps ! (4 * k)) [0 ..< (length ps + 3) div 4]"

definition spec_training :: "flt list \<Rightarrow> flt list \<Rightarrow> (flt \<times> flt) list" where
  "spec_training t y = every_fourth (filter valid_pair (zip t y))"

section \<open>Kernel objects and the model (cell \<open>excessive-reading\<close>)\<close>

text \<open>
  The kernel objects of the \<open>tinygp\<close> library, as the notebook builds them: the three
  primitive kernels with their keyword arguments, and the objects that the overloaded
  \<open>+\<close> and \<open>*\<close> create. A scalar factor \<open>c * k\<close> becomes \<open>Product (Constant c) k\<close>.
  Scalars are real numbers here: this is the model in exact arithmetic. The range of
  double precision, where \<open>exp\<close> underflows to zero and overflows to infinity, is added
  in the section on the model in double precision below.
\<close>

datatype kernel =
    Constant real
  | ExpSquared (scale: real)
  | ExpSineSquared (scale: real) (gamma: real)
  | RationalQuadratic (alpha: real) (scale: real)
  | Sum kernel kernel
  | Product kernel kernel

record GaussianProcess =
  kernel :: kernel
  X :: "real list"
  diag :: real
  mean :: real

text \<open>
  Reading entry \<open>i\<close> of a JAX array: an index past the end is clamped to the last entry.
  (Reading any entry of an empty array raises; \<open>build_gp\<close> checks for that before.)
\<close>

definition jnp_index :: "real list \<Rightarrow> nat \<Rightarrow> real" where
  "jnp_index xs i = xs ! min i (length xs - 1)"

text \<open>
  \<^verbatim>\<open>def build_gp(theta, X):\<close>
  \<^verbatim>\<open>    mean = theta[-1]\<close>
  \<^verbatim>\<open>    theta = jnp.exp(theta[:-1])\<close>
  \<^verbatim>\<open>    k1 = theta[0] ** 2 * kernels.ExpSquared(theta[1])\<close>
  \<^verbatim>\<open>    k2 = theta[2] ** 2 * kernels.ExpSquared(theta[3]) * kernels.ExpSineSquared(scale=theta[4], gamma=theta[5])\<close>
  \<^verbatim>\<open>    k3 = theta[6] ** 2 * kernels.RationalQuadratic(alpha=theta[7], scale=theta[8])\<close>
  \<^verbatim>\<open>    k4 = theta[9] ** 2 * kernels.ExpSquared(theta[10])\<close>
  \<^verbatim>\<open>    kernel = k1 + k2 + k3 + k4\<close>
  \<^verbatim>\<open>    return GaussianProcess(kernel, X, diag=theta[11] ** 2, mean=mean)\<close>
  \<open>theta[-1]\<close> raises on an empty vector, and \<open>theta[0]\<close> raises when \<open>theta[:-1]\<close> is empty.
\<close>

definition build_gp :: "real list \<Rightarrow> real list \<Rightarrow> py_error + GaussianProcess" where
  "build_gp theta xs =
     (if length theta < 2 then Inl IndexError
      else
        let mean = last theta;
            theta = map exp (butlast theta);
            k1 = Product (Constant ((jnp_index theta 0)\<^sup>2)) (ExpSquared (jnp_index theta 1));
            k2 = Product (Product (Constant ((jnp_index theta 2)\<^sup>2)) (ExpSquared (jnp_index theta 3)))
                         (ExpSineSquared (jnp_index theta 4) (jnp_index theta 5));
            k3 = Product (Constant ((jnp_index theta 6)\<^sup>2))
                         (RationalQuadratic (jnp_index theta 7) (jnp_index theta 8));
            k4 = Product (Constant ((jnp_index theta 9)\<^sup>2)) (ExpSquared (jnp_index theta 10));
            kernel = Sum (Sum (Sum k1 k2) k3) k4
        in Inr \<lparr>kernel = kernel, X = xs, diag = (jnp_index theta 11)\<^sup>2, mean = mean\<rparr>)"

text \<open>Every scalar a kernel object holds, left to right.\<close>

fun parameters :: "kernel \<Rightarrow> real list" where
  "parameters (Constant c) = [c]"
| "parameters (ExpSquared l) = [l]"
| "parameters (ExpSineSquared p g) = [p, g]"
| "parameters (RationalQuadratic a l) = [a, l]"
| "parameters (Sum k k') = parameters k @ parameters k'"
| "parameters (Product k k') = parameters k @ parameters k'"

text \<open>
  Modelled from the spec: the value of a kernel object at a pair of inputs (the library
  that evaluates kernels is not part of the repository). Section 4.1 gives the three
  primitives as functions of the distance \<open>r = |x - x'|\<close>:
  squared-exponential \<open>exp(-r\<^sup>2/(2l\<^sup>2))\<close>, periodic \<open>exp(-gamma sin\<^sup>2(pi r / p))\<close>,
  rational-quadratic \<open>[1 + r\<^sup>2/(2 alpha l\<^sup>2)]^(-alpha)\<close>; sums and products act pointwise.
\<close>

fun evaluate :: "kernel \<Rightarrow> real \<Rightarrow> real \<Rightarrow> real" where
  "evaluate (Constant c) x x' = c"
| "evaluate (ExpSquared l) x x' = exp (- (\<bar>x - x'\<bar>)\<^sup>2 / (2 * l\<^sup>2))"
| "evaluate (ExpSineSquared p g) x x' = exp (- g * (sin (pi * \<bar>x - x'\<bar> / p))\<^sup>2)"
| "evaluate (RationalQuadratic a l) x x' = (1 + (\<bar>x - x'\<bar>)\<^sup>2 / (2 * a * l\<^sup>2)) powr (- a)"
| "evaluate (Sum k k') x x' = evaluate k x x' + evaluate k' x x'"
| "evaluate (Product k k') x x' = evaluate k x x' * evaluate k' x x'"

text \<open>The matrix \<open>K(X, X')\<close> of kernel values, as a list of rows.\<close>

definition gram :: "kernel \<Rightarrow> real list \<Rightarrow> real list \<Rightarrow> real list list" where
  "gram k xs xs' = map (\<lambda>x. map (\<lambda>x'. evaluate k x x') xs') xs"

text \<open>
  Modelled from the spec: the training covariance of a model, section 4.2,
  \<open>Sigma = K(X,X) + diag(noise)\<close>, with the scalar noise on every diagonal entry.
\<close>

definition covariance :: "GaussianProcess \<Rightarrow> real list list" where
  "covariance gp =
     map (\<lambda>i. map (\<lambda>j. evaluate (kernel gp) (X gp ! i) (X gp ! j) + (if i = j then diag gp else 0))
                   [0 ..< length (X gp)])
         [0 ..< length (X gp)]"

text \<open>
  The composite covariance function of the specification, section 4.1, from its
  primitives: \<open>a0\<^sup>2 SE(l0) + a1\<^sup>2 SE(l1) Periodic(p, gamma) + a2\<^sup>2 RQ(alpha, l2) + a3\<^sup>2 SE(l3)\<close>.
\<close>

definition SE :: "real \<Rightarrow> real \<Rightarrow> real" where
  "SE l r = exp (- r\<^sup>2 / (2 * l\<^sup>2))"

definition Periodic :: "real \<Rightarrow> real \<Rightarrow> real \<Rightarrow> real" where
  "Periodic p g r = exp (- g * (sin (pi * r / p))\<^sup>2)"

definition RQ :: "real \<Rightarrow> real \<Rightarrow> real \<Rightarrow> real" where
  "RQ a l r = (1 + r\<^sup>2 / (2 * a * l\<^sup>2)) powr (- a)"

definition composite :: "real list \<Rightarrow> real \<Rightarrow> real" where
  "composite q r =
     (q ! 0)\<^sup>2 * SE (q ! 1) r
     + (q ! 2)\<^sup>2 * SE (q ! 3) r * Periodic (q ! 4) (q ! 5) r
     + (q ! 6)\<^sup>2 * RQ (q ! 7) (q ! 8) r
     + (q ! 9)\<^sup>2 * SE (q ! 10) r"

section \<open>Symmetric and positive semi-definite matrices\<close>

text \<open>A square matrix, as a list of rows, is symmetric when it equals its transpose.\<close>

definition symmetric :: "real list list \<Rightarrow> bool" where
  "symmetric m \<longleftrightarrow> (\<forall>i<length m. \<forall>j<length m. m ! i ! j = m ! j ! i)"

text \<open>
  It is positive semi-definite when its quadratic form is nowhere negative; for a
  symmetric real matrix this says that no eigenvalue is negative.
\<close>

definition positive_semidefinite :: "real list list \<Rightarrow> bool" where
  "positive_semidefinite m \<longleftrightarrow>
     (\<forall>c. length c = length m \<longrightarrow> 0 \<le> (\<Sum>i<length m. \<Sum>j<length m. c ! i * c ! j * m ! i ! j))"

text \<open>The quadratic form of a covariance function on the points \<open>xs\<close>, at the weights \<open>c\<close>.\<close>

definition quad_form :: "(real \<Rightarrow> real \<Rightarrow> real) \<Rightarrow> real list \<Rightarrow> real list \<Rightarrow> real" where
  "quad_form k xs c = (\<Sum>i<length xs. \<Sum>j<length xs. c ! i * c ! j * k (xs ! i) (xs ! j))"

definition psd :: "(real \<Rightarrow> real \<Rightarrow> real) \<Rightarrow> bool" where
  "psd k \<longleftrightarrow> (\<forall>xs c. length c = length xs \<longrightarrow> 0 \<le> quad_form k xs c)"

text \<open>
  A function \<open>w\<close> whose pointwise product with any positive semi-definite function is
  positive semi-definite again. Such functions are closed under products by their
  definition, which is what the composite kernel needs.
\<close>

definition pmult :: "(real \<Rightarrow> real \<Rightarrow> real) \<Rightarrow> bool" where
  "pmult w \<longleftrightarrow> (\<forall>k. psd k \<longrightarrow> psd (\<lambda>x y. w x y * k x y))"

text \<open>
  The valid kernel compositions of section 4.1: primitives with positive scales, sums,
  products, and non-negative scalar factors.
\<close>

fun admissible :: "kernel \<Rightarrow> bool" where
  "admissible (Constant c) = (0 \<le> c)"
| "admissible (ExpSquared l) = (0 < l)"
| "admissible (ExpSineSquared p g) = (0 < p \<and> 0 < g)"
| "admissible (RationalQuadratic a l) = (0 < a \<and> 0 < l)"
| "admissible (Sum k k') = (admissible k \<and> admissible k')"
| "admissible (Product k k') = (admissible k \<and> admissible k')"

section \<open>The likelihood (cell \<open>excessive-reading\<close>, second function)\<close>

text \<open>
  Modelled from the spec: \<open>log_probability\<close> of section 4.2, the log-density of the
  residual \<open>y - mean\<close> under \<open>N(0, Sigma)\<close>, computed by a Cholesky factorisation (the
  library that does it is not part of the repository). The factorisation is written in
  its outer-product order, one index at a time: eliminating index \<open>i\<close> needs the pivot
  \<open>m i i\<close> (the square of the factor's diagonal entry) to be positive, contributes the
  log-density \<open>-(r\<^sub>i\<^sup>2 / m\<^sub>i\<^sub>i + ln m\<^sub>i\<^sub>i + ln 2pi) / 2\<close> of one scalar normal, and leaves
  the Schur complement of the matrix and the updated residual for the other indices.
  A pivot that is not positive makes the factorisation fail: the result is \<open>None\<close>.
  The matrix and the residual are read through index functions.
\<close>

definition schur :: "(nat \<Rightarrow> nat \<Rightarrow> real) \<Rightarrow> nat \<Rightarrow> nat \<Rightarrow> nat \<Rightarrow> real" where
  "schur m i j k = m j k - m j i * m i k / m i i"

definition residual :: "(nat \<Rightarrow> nat \<Rightarrow> real) \<Rightarrow> (nat \<Rightarrow> real) \<Rightarrow> nat \<Rightarrow> nat \<Rightarrow> real" where
  "residual m r i j = r j - m j i * r i / m i i"

fun gauss_logpdf :: "(nat \<Rightarrow> nat \<Rightarrow> real) \<Rightarrow> (nat \<Rightarrow> real) \<Rightarrow> nat list \<Rightarrow> real option" where
  "gauss_logpdf m r [] = Some 0"
| "gauss_logpdf m r (i # l) =
     (if m i i \<le> 0 then None
      else map_option (\<lambda>v. v - ((r i)\<^sup>2 / m i i + ln (m i i) + ln (2 * pi)) / 2)
             (gauss_logpdf (schur m i) (residual m r i) l))"

text \<open>
  Modelled from the spec: \<open>gp.log_probability(y)\<close> on the training covariance of the
  model. Observations of another length than the inputs are a shape error; a failed
  factorisation gives NaN (JAX does not raise).
\<close>

definition log_probability :: "GaussianProcess \<Rightarrow> real list \<Rightarrow> py_error + flt" where
  "log_probability gp y =
     (if length y \<noteq> length (X gp) then Inl ShapeError
      else Inr (case gauss_logpdf (\<lambda>i j. covariance gp ! i ! j) (\<lambda>i. y ! i - mean gp)
                       [0 ..< length (X gp)] of
                  None \<Rightarrow> NaN
                | Some v \<Rightarrow> Num v))"

fun flt_neg :: "flt \<Rightarrow> flt" where
  "flt_neg (Num v) = Num (- v)"
| "flt_neg PInf = NInf"
| "flt_neg NInf = PInf"
| "flt_neg NaN = NaN"

text \<open>
  \<^verbatim>\<open>def neg_log_likelihood(theta, X, y):\<close>
  \<^verbatim>\<open>    gp = build_gp(theta, X)\<close>
  \<^verbatim>\<open>    return -gp.log_probability(y)\<close>
\<close>

definition neg_log_likelihood :: "real list \<Rightarrow> real list \<Rightarrow> real list \<Rightarrow> py_error + flt" where
  "neg_log_likelihood theta xs y =
     (case build_gp theta xs of
        Inl e \<Rightarrow> Inl e
      | Inr gp \<Rightarrow> (case log_probability gp y of Inl e \<Rightarrow> Inl e | Inr v \<Rightarrow> Inr (flt_neg v)))"

text \<open>A sequence reordered by a list of positions: entry \<open>a\<close> of the result is entry \<open>p ! a\<close>.\<close>

definition permute :: "nat list \<Rightarrow> 'a list \<Rightarrow> 'a list" where
  "permute p xs = map (\<lambda>i. xs ! i) p"

text \<open>Symmetric and positive definite index functions, the latter on a set of indices.\<close>

definition symmetric_fn :: "(nat \<Rightarrow> nat \<Rightarrow> real) \<Rightarrow> bool" where
  "symmetric_fn m \<longleftrightarrow> (\<forall>i j. m i j = m j i)"

definition pd_on :: "(nat \<Rightarrow> nat \<Rightarrow> real) \<Rightarrow> nat set \<Rightarrow> bool" where
  "pd_on m S \<longleftrightarrow> (\<forall>c. (\<exists>i\<in>S. c i \<noteq> 0) \<longrightarrow> 0 < (\<Sum>i\<in>S. \<Sum>j\<in>S. c i * c j * m i j))"

section \<open>The posterior mean (cell \<open>latin-weather\<close>)\<close>

text \<open>
  Modelled from the spec: the solution \<open>w\<close> of \<open>Sigma w = r\<close> by the same elimination as
  \<open>gauss_logpdf\<close> (section 4.2 asks \<open>condition\<close> to reuse the factorisation of
  \<open>log_probability\<close>): eliminate index \<open>i\<close>, solve for the other indices, substitute
  back. The solution is zero outside the list of indices.
\<close>

fun gauss_solve :: "(nat \<Rightarrow> nat \<Rightarrow> real) \<Rightarrow> (nat \<Rightarrow> real) \<Rightarrow> nat list \<Rightarrow> (nat \<Rightarrow> real) option" where
  "gauss_solve m r [] = Some (\<lambda>j. 0)"
| "gauss_solve m r (i # l) =
     (if m i i \<le> 0 then None
      else map_option (\<lambda>w. w(i := (r i - (\<Sum>j\<leftarrow>l. m i j * w j)) / m i i))
             (gauss_solve (schur m i) (residual m r i) l))"

text \<open>
  Modelled from the spec: the mean of \<open>gp.condition(y, X_new)\<close>, section 4.2,
  \<open>mu* = mean + K(X*, X) Sigma\<^sup>-\<^sup>1 (y - mean)\<close> with \<open>Sigma = K(X, X) + diag(noise)\<close>.
  A failed factorisation gives NaN at every query point.
\<close>

definition condition_mean :: "GaussianProcess \<Rightarrow> real list \<Rightarrow> real list \<Rightarrow> py_error + flt list" where
  "condition_mean gp y xnew =
     (if length y \<noteq> length (X gp) then Inl ShapeError
      else Inr (case gauss_solve (\<lambda>i j. covariance gp ! i ! j) (\<lambda>i. y ! i - mean gp)
                       [0 ..< length (X gp)] of
                  None \<Rightarrow> map (\<lambda>x. NaN) xnew
                | Some w \<Rightarrow>
                    map (\<lambda>x. Num (mean gp
                            + (\<Sum>j\<leftarrow>[0 ..< length (X gp)]. evaluate (kernel gp) x (X gp ! j) * w j)))
                        xnew))"

text \<open>A covariance function that is strictly positive definite on pairwise distinct points.\<close>

definition spd :: "(real \<Rightarrow> real \<Rightarrow> real) \<Rightarrow> bool" where
  "spd k \<longleftrightarrow> (\<forall>xs c. distinct xs \<and> length c = length xs \<and> (\<exists>i<length xs. c ! i \<noteq> 0)
                  \<longrightarrow> 0 < quad_form k xs c)"

section \<open>The model in double precision\<close>

text \<open>
  The notebook enables 64 bit floats (\<^verbatim>\<open>config.update("jax_enable_x64", True)\<close>), so
  \<open>jnp.exp\<close> and \<open>** 2\<close> in \<open>build_gp\<close> return doubles. A result whose magnitude is at most
  \<open>2^-1075\<close> (half the smallest subnormal) is zero; a result from \<open>2^1024 - 2^970\<close> on (half
  a unit in the last place above the largest double) is an infinity. Between the two a
  result is carried as the real number it approximates: rounding to 53 bits is not
  modelled, the range of the format is.
\<close>

definition tiny64 :: real where
  "tiny64 = 1 / 2 ^ 1075"

definition huge64 :: real where
  "huge64 = 2 ^ 1024 - 2 ^ 970"

definition round64 :: "real \<Rightarrow> flt" where
  "round64 v =
     (if \<bar>v\<bar> \<le> tiny64 then Num 0
      else if huge64 \<le> v then PInf
      else if v \<le> - huge64 then NInf
      else Num v)"

text \<open>\<open>jnp.exp\<close> of a finite double, and \<open>v ** 2\<close> of a double.\<close>

definition exp64 :: "real \<Rightarrow> flt" where
  "exp64 x = round64 (exp x)"

fun square64 :: "flt \<Rightarrow> flt" where
  "square64 (Num v) = round64 (v * v)"
| "square64 PInf = PInf"
| "square64 NInf = PInf"
| "square64 NaN = NaN"

text \<open>
  The kernel objects and the model, holding doubles. The inputs and the vector \<open>theta\<close>
  are finite numbers that the caller gives, so the mean \<open>theta[-1]\<close> is one too.
\<close>

datatype kernel64 =
    Constant64 flt
  | ExpSquared64 flt
  | ExpSineSquared64 flt flt
  | RationalQuadratic64 flt flt
  | Sum64 kernel64 kernel64
  | Product64 kernel64 kernel64

record GaussianProcess64 =
  kernel64 :: kernel64
  X64 :: "real list"
  diag64 :: flt
  mean64 :: real

definition jnp_index64 :: "flt list \<Rightarrow> nat \<Rightarrow> flt" where
  "jnp_index64 xs i = xs ! min i (length xs - 1)"

text \<open>
  \<open>build_gp\<close>, line by line as above, with \<open>jnp.exp\<close> and \<open>** 2\<close> in double precision.
\<close>

definition build_gp64 :: "real list \<Rightarrow> real list \<Rightarrow> py_error + GaussianProcess64" where
  "build_gp64 theta xs =
     (if length theta < 2 then Inl IndexError
      else
        let mean = last theta;
            theta = map exp64 (butlast theta);
            k1 = Product64 (Constant64 (square64 (jnp_index64 theta 0)))
                           (ExpSquared64 (jnp_index64 theta 1));
            k2 = Product64 (Product64 (Constant64 (square64 (jnp_index64 theta 2)))
                                      (ExpSquared64 (jnp_index64 theta 3)))
                           (ExpSineSquared64 (jnp_index64 theta 4) (jnp_index64 theta 5));
            k3 = Product64 (Constant64 (square64 (jnp_index64 theta 6)))
                           (RationalQuadratic64 (jnp_index64 theta 7) (jnp_index64 theta 8));
            k4 = Product64 (Constant64 (square64 (jnp_index64 theta 9)))
                           (ExpSquared64 (jnp_index64 theta 10));
            kernel = Sum64 (Sum64 (Sum64 k1 k2) k3) k4
        in Inr \<lparr>kernel64 = kernel, X64 = xs, diag64 = square64 (jnp_index64 theta 11),
                 mean64 = mean\<rparr>)"

fun parameters64 :: "kernel64 \<Rightarrow> flt list" where
  "parameters64 (Constant64 c) = [c]"
| "parameters64 (ExpSquared64 l) = [l]"
| "parameters64 (ExpSineSquared64 p g) = [p, g]"
| "parameters64 (RationalQuadratic64 a l) = [a, l]"
| "parameters64 (Sum64 k k') = parameters64 k @ parameters64 k'"
| "parameters64 (Product64 k k') = parameters64 k @ parameters64 k'"

text \<open>
  The vectors \<open>theta\<close> on which \<open>build_gp\<close> stays inside the range of the format. Entries
  1, 3, 4, 5, 7, 8, 10 are exponentiated; entries 0, 2, 6, 9 (the amplitudes) and 11 (the
  noise) are exponentiated and squared. \<open>no_underflow\<close>: none of the twelve results is
  zero. \<open>kernel_in_range64\<close>: the eleven scalars of the kernel are positive finite doubles.
  \<open>in_range64\<close>: the noise is one as well. The thresholds are \<open>theta[i] > -1075 ln 2\<close>
  (about -745.1) for an exponential and \<open>theta[i] > -1075 ln 2 / 2\<close> (about -372.6) for a
  square not to underflow, and about 709.8 and 354.9 from above.
\<close>

definition representable :: "real \<Rightarrow> bool" where
  "representable v \<longleftrightarrow> tiny64 < v \<and> v < huge64"

definition no_underflow :: "real list \<Rightarrow> bool" where
  "no_underflow theta \<longleftrightarrow>
     list_all (\<lambda>i. tiny64 < exp (theta ! i)) [1, 3, 4, 5, 7, 8, 10]
     \<and> list_all (\<lambda>i. tiny64 < (exp (theta ! i))\<^sup>2) [0, 2, 6, 9, 11]"

definition kernel_in_range64 :: "real list \<Rightarrow> bool" where
  "kernel_in_range64 theta \<longleftrightarrow>
     list_all (\<lambda>i. representable (exp (theta ! i))) [1, 3, 4, 5, 7, 8, 10]
     \<and> list_all (\<lambda>i. representable ((exp (theta ! i))\<^sup>2)) [0, 2, 6, 9]"

definition in_range64 :: "real list \<Rightarrow> bool" where
  "in_range64 theta \<longleftrightarrow> kernel_in_range64 theta \<and> representable ((exp (theta ! 11))\<^sup>2)"

text \<open>
  Modelled from the spec: the arithmetic in which the library evaluates the formulas of
  sections 4.1 and 4.2 on doubles (the library is not part of the repository). On finite
  numbers the operations are exact: rounding inside the library is not modelled. On
  zero divisors, infinities and NaN they follow IEEE 754: \<open>0/0\<close>, \<open>inf - inf\<close>,
  \<open>0 * inf\<close> and \<open>inf/inf\<close> are NaN, NaN propagates, \<open>v/0\<close> is an infinity with the sign
  of \<open>v\<close>, \<open>exp(-inf) = 0\<close>, \<open>sin(inf)\<close> is NaN, and \<open>pow\<close> has the special cases of the C
  library.
\<close>

fun fadd :: "flt \<Rightarrow> flt \<Rightarrow> flt" where
  "fadd NaN b = NaN"
| "fadd a NaN = NaN"
| "fadd (Num a) (Num b) = Num (a + b)"
| "fadd PInf NInf = NaN"
| "fadd NInf PInf = NaN"
| "fadd PInf b = PInf"
| "fadd a PInf = PInf"
| "fadd NInf b = NInf"
| "fadd a NInf = NInf"

fun fsign :: "flt \<Rightarrow> bool option" where
  "fsign (Num a) = (if a = 0 then None else Some (0 < a))"
| "fsign PInf = Some True"
| "fsign NInf = Some False"
| "fsign NaN = None"

fun fmul :: "flt \<Rightarrow> flt \<Rightarrow> flt" where
  "fmul NaN b = NaN"
| "fmul a NaN = NaN"
| "fmul (Num a) (Num b) = Num (a * b)"
| "fmul a b =
     (case (fsign a, fsign b) of
        (Some s, Some t) \<Rightarrow> (if s = t then PInf else NInf)
      | _ \<Rightarrow> NaN)"

fun fdiv :: "flt \<Rightarrow> flt \<Rightarrow> flt" where
  "fdiv NaN b = NaN"
| "fdiv a NaN = NaN"
| "fdiv (Num a) (Num b) =
     (if b \<noteq> 0 then Num (a / b)
      else if a = 0 then NaN else if 0 < a then PInf else NInf)"
| "fdiv (Num a) b = Num 0"
| "fdiv a (Num b) = (if (fsign a = Some True) = (0 \<le> b) then PInf else NInf)"
| "fdiv a b = NaN"

fun fexp :: "flt \<Rightarrow> flt" where
  "fexp (Num a) = Num (exp a)"
| "fexp PInf = PInf"
| "fexp NInf = Num 0"
| "fexp NaN = NaN"

fun fsin :: "flt \<Rightarrow> flt" where
  "fsin (Num a) = Num (sin a)"
| "fsin a = NaN"

definition is_integer :: "real \<Rightarrow> bool" where
  "is_integer e \<longleftrightarrow> e = of_int \<lfloor>e\<rfloor>"

definition is_odd_integer :: "real \<Rightarrow> bool" where
  "is_odd_integer e \<longleftrightarrow> is_integer e \<and> odd \<lfloor>e\<rfloor>"

fun fpow :: "flt \<Rightarrow> flt \<Rightarrow> flt" where
  "fpow b (Num e) =
     (if e = 0 then Num 1
      else case b of
        Num v \<Rightarrow> (if 0 < v then Num (v powr e)
                   else if v = 0 then (if 0 < e then Num 0 else PInf)
                   else if is_odd_integer e then Num (- (\<bar>v\<bar> powr e))
                   else if is_integer e then Num (\<bar>v\<bar> powr e)
                   else NaN)
      | PInf \<Rightarrow> (if 0 < e then PInf else Num 0)
      | NInf \<Rightarrow> (if e < 0 then Num 0 else if is_odd_integer e then NInf else PInf)
      | NaN \<Rightarrow> NaN)"
| "fpow (Num v) NInf =
     (if \<bar>v\<bar> = 1 then Num 1 else if 1 < \<bar>v\<bar> then Num 0 else PInf)"
| "fpow (Num v) PInf =
     (if \<bar>v\<bar> = 1 then Num 1 else if 1 < \<bar>v\<bar> then PInf else Num 0)"
| "fpow (Num v) NaN = (if v = 1 then Num 1 else NaN)"
| "fpow NaN e = NaN"
| "fpow b NaN = NaN"
| "fpow b PInf = PInf"
| "fpow b NInf = Num 0"

text \<open>
  Modelled from the spec: the value of a kernel object that holds doubles, by the
  formulas of section 4.1 as in \<open>evaluate\<close>, computed with the operations above. A length
  scale of zero gives \<open>0/0\<close>, so NaN, at two equal inputs.
\<close>

fun evaluate64 :: "kernel64 \<Rightarrow> real \<Rightarrow> real \<Rightarrow> flt" where
  "evaluate64 (Constant64 c) x x' = c"
| "evaluate64 (ExpSquared64 l) x x' =
     fexp (flt_neg (fdiv (Num ((\<bar>x - x'\<bar>)\<^sup>2)) (fmul (Num 2) (fmul l l))))"
| "evaluate64 (ExpSineSquared64 p g) x x' =
     fexp (flt_neg (fmul g (fmul (fsin (fdiv (Num (pi * \<bar>x - x'\<bar>)) p))
                                 (fsin (fdiv (Num (pi * \<bar>x - x'\<bar>)) p)))))"
| "evaluate64 (RationalQuadratic64 a l) x x' =
     fpow (fadd (Num 1) (fdiv (Num ((\<bar>x - x'\<bar>)\<^sup>2)) (fmul (fmul (Num 2) a) (fmul l l))))
          (flt_neg a)"
| "evaluate64 (Sum64 k k') x x' = fadd (evaluate64 k x x') (evaluate64 k' x x')"
| "evaluate64 (Product64 k k') x x' = fmul (evaluate64 k x x') (evaluate64 k' x x')"

definition gram64 :: "kernel64 \<Rightarrow> real list \<Rightarrow> real list \<Rightarrow> flt list list" where
  "gram64 k xs xs' = map (\<lambda>x. map (\<lambda>x'. evaluate64 k x x') xs') xs"

text \<open>
  Modelled from the spec: the training covariance \<open>K(X,X) + diag(noise)\<close> of section 4.2,
  on doubles.
\<close>

definition covariance64 :: "GaussianProcess64 \<Rightarrow> flt list list" where
  "covariance64 gp =
     map (\<lambda>i. map (\<lambda>j. fadd (evaluate64 (kernel64 gp) (X64 gp ! i) (X64 gp ! j))
                            (if i = j then diag64 gp else Num 0))
                   [0 ..< length (X64 gp)])
         [0 ..< length (X64 gp)]"

text \<open>
  A matrix of doubles is symmetric when each entry compares equal (\<open>==\<close>, which NaN never
  does) to its mirror image. It is positive semi-definite when every entry is a finite
  number and the real matrix of these numbers is: with an infinity or a NaN among the
  entries no eigenvalue is a number.
\<close>

fun flt_eq :: "flt \<Rightarrow> flt \<Rightarrow> bool" where
  "flt_eq (Num a) (Num b) = (a = b)"
| "flt_eq PInf PInf = True"
| "flt_eq NInf NInf = True"
| "flt_eq a b = False"

fun num_of :: "flt \<Rightarrow> real" where
  "num_of (Num v) = v"
| "num_of a = 0"

definition all_finite :: "flt list list \<Rightarrow> bool" where
  "all_finite m = list_all (list_all isfinite) m"

definition symmetric64 :: "flt list list \<Rightarrow> bool" where
  "symmetric64 m \<longleftrightarrow> (\<forall>i<length m. \<forall>j<length m. flt_eq (m ! i ! j) (m ! j ! i))"

definition positive_semidefinite64 :: "flt list list \<Rightarrow> bool" where
  "positive_semidefinite64 m \<longleftrightarrow> all_finite m \<and> positive_semidefinite (map (map num_of) m)"

text \<open>
  Modelled from the spec: the mean of \<open>gp.condition(y, X_new)\<close>, section 4.2, as
  \<open>condition_mean\<close>, on a model that holds doubles. A training covariance with an entry
  that is not a finite number, like a failed factorisation, gives NaN at every query
  point; otherwise the system is solved in exact arithmetic.
\<close>

fun fsum :: "flt list \<Rightarrow> flt" where
  "fsum [] = Num 0"
| "fsum (a # l) = fadd a (fsum l)"

definition condition_mean64 ::
  "GaussianProcess64 \<Rightarrow> real list \<Rightarrow> real list \<Rightarrow> py_error + flt list" where
  "condition_mean64 gp y xnew =
     (if length y \<noteq> length (X64 gp) then Inl ShapeError
      else Inr (case (if all_finite (covariance64 gp)
                      then gauss_solve (\<lambda>i j. num_of (covariance64 gp ! i ! j))
                             (\<lambda>i. y ! i - mean64 gp) [0 ..< length (X64 gp)]
                      else None) of
                  None \<Rightarrow> map (\<lambda>x. NaN) xnew
                | Some w \<Rightarrow>
                    map (\<lambda>x. fadd (Num (mean64 gp))
                            (fsum (map (\<lambda>j. fmul (evaluate64 (kernel64 gp) x (X64 gp ! j)) (Num (w j)))
                                       [0 ..< length (X64 gp)])))
                        xnew))"

text \<open>The kernel object whose doubles are the finite numbers that a real kernel object holds.\<close>

fun exact :: "kernel \<Rightarrow> kernel64" where
  "exact (Constant c) = Constant64 (Num c)"
| "exact (ExpSquared l) = ExpSquared64 (Num l)"
| "exact (ExpSineSquared p g) = ExpSineSquared64 (Num p) (Num g)"
| "exact (RationalQuadratic a l) = RationalQuadratic64 (Num a) (Num l)"
| "exact (Sum k k') = Sum64 (exact k) (exact k')"
| "exact (Product k k') = Product64 (exact k) (exact k')"

section \<open>The data selection\<close>

lemma stride4_map: "stride4 (map f xs) = map f (stride4 xs)"
  by (induction xs rule: stride4.induct) (simp_all add: drop_map)

lemma stride4_zip:
  "length xs = length ys \<Longrightarrow> zip (stride4 xs) (stride4 ys) = stride4 (zip xs ys)"
proof (induction xs arbitrary: ys rule: stride4.induct)
  case 1
  then show ?case by simp
next
  case (2 x xs)
  then obtain y ys' where ys: "ys = y # ys'" "length xs = length ys'"
    by (cases ys) auto
  with 2 show ?case by (simp add: drop_zip)
qed

lemma stride4_length: "length (stride4 xs) = (length xs + 3) div 4"
  by (induction xs rule: stride4.induct) auto

lemma stride4_nth: "k < (length xs + 3) div 4 \<Longrightarrow> stride4 xs ! k = xs ! (4 * k)"
proof (induction xs arbitrary: k rule: stride4.induct)
  case 1
  then show ?case by simp
next
  case (2 x xs)
  show ?case
  proof (cases k)
    case 0
    then show ?thesis by simp
  next
    case (Suc k')
    with 2 have "k' < (length (drop 3 xs) + 3) div 4" by auto
    from 2(1)[OF this] Suc 2(2) show ?thesis by auto
  qed
qed

lemma stride4_every_fourth: "stride4 xs = every_fourth xs"
  by (rule nth_equalityI) (simp_all add: every_fourth_def stride4_length stride4_nth)

lemma mask_valid:
  "length t = length y \<Longrightarrow> mask t y = map valid_pair (zip t y)"
  by (rule nth_equalityI) (simp_all add: mask_def and_arr_def valid_pair_def)

lemma bool_index_zip_map:
  "bool_index (map f ps) (map P ps) = map f (filter P ps)"
  by (induction ps) (simp_all add: bool_index_def)

lemma bool_index_fst:
  "length t = length y \<Longrightarrow> bool_index t (map P (zip t y)) = map fst (filter P (zip t y))"
  using bool_index_zip_map[of fst "zip t y" P] by simp

lemma bool_index_snd:
  "length t = length y \<Longrightarrow> bool_index y (map P (zip t y)) = map snd (filter P (zip t y))"
  using bool_index_zip_map[of snd "zip t y" P] by simp

text \<open>
  C8. For two raw columns of the same length, the training set is every fourth pair
  (positions 0, 4, 8, ...) of the pairs \<open>(t, y)\<close> that are finite in both coordinates and
  have \<open>t < 1996\<close>, in their original order; \<open>t\<close> and \<open>y\<close> go through the same mask, so the
  two results have the same length and pair up again.
\<close>

theorem select_data_every_fourth_valid:
  assumes "length t = length y"
  shows "\<exists>t' y'. select_data t y = Inr (t', y')
           \<and> length t' = length y'
           \<and> zip t' y' = spec_training t y
           \<and> t' = map fst (spec_training t y)
           \<and> y' = map snd (spec_training t y)"
proof -
  let ?v = "filter valid_pair (zip t y)"
  have t': "stride4 (bool_index t (mask t y)) = map fst (every_fourth ?v)"
    using assms by (simp add: mask_valid bool_index_fst stride4_map)
      (simp add: stride4_every_fourth)
  have y': "stride4 (bool_index y (mask t y)) = map snd (every_fourth ?v)"
    using assms by (simp add: mask_valid bool_index_snd stride4_map)
      (simp add: stride4_every_fourth)
  have "select_data t y = Inr (map fst (every_fourth ?v), map snd (every_fourth ?v))"
    using assms t' y' by (simp add: select_data_def Let_def)
  moreover have "zip (map fst (every_fourth ?v)) (map snd (every_fourth ?v)) = every_fourth ?v"
    by (simp add: zip_map_fst_snd)
  ultimately show ?thesis
    by (simp add: spec_training_def)
qed

theorem select_data_every_fourth_valid_witness:
  "length [Num 1990, NaN, Num 1991, Num 1992, Num 1993, Num 1994, Num 1997, Num 1995]
     = length [Num 1, Num 2, NaN, Num 3, Num 4, Num 5, Num 6, Num 7]
   \<and> select_data [Num 1990, NaN, Num 1991, Num 1992, Num 1993, Num 1994, Num 1997, Num 1995]
                 [Num 1, Num 2, NaN, Num 3, Num 4, Num 5, Num 6, Num 7]
       = Inr ([Num 1990, Num 1995], [Num 1, Num 7])"
proof -
  let ?t = "[Num 1990, NaN, Num 1991, Num 1992, Num 1993, Num 1994, Num 1997, Num 1995]"
  let ?y = "[Num 1, Num 2, NaN, Num 3, Num 4, Num 5, Num 6, Num 7]"
  have s: "spec_training ?t ?y = [(Num 1990, Num 1), (Num 1995, Num 7)]"
    by (simp add: spec_training_def every_fourth_def valid_pair_def upt_rec)
  have h: "length ?t = length ?y" by simp
  from select_data_every_fourth_valid[OF h] s show ?thesis by auto
qed

text \<open>
  Columns of different lengths: a column of one entry against an empty one selects
  nothing, against a longer one the mask does not fit it, and two lengths that do not
  broadcast fail before any indexing.
\<close>

lemma select_data_unequal_lengths:
  "select_data [Num 1] [] = Inr ([], [])"
  "select_data [] [Num 1] = Inr ([], [])"
  "select_data [Num 1] [Num 1, Num 2] = Inl IndexError"
  "select_data [Num 1, Num 2, Num 3] [Num 1] = Inl IndexError"
  "select_data [Num 1, Num 2] [Num 1, Num 2, Num 3] = Inl ShapeError"
  "select_data [] [Num 1, Num 2] = Inl ShapeError"
  by (simp_all add: select_data_def)

section \<open>The model that \<open>build_gp\<close> returns\<close>

lemma jnp_index_exp:
  "length theta = 13 \<Longrightarrow> i < 12 \<Longrightarrow> jnp_index (map exp (butlast theta)) i = exp (theta ! i)"
  by (simp add: jnp_index_def nth_butlast)

lemma build_gp_13:
  assumes "length theta = 13"
  shows "build_gp theta xs = Inr
    \<lparr>kernel =
       Sum (Sum (Sum
         (Product (Constant ((exp (theta ! 0))\<^sup>2)) (ExpSquared (exp (theta ! 1))))
         (Product (Product (Constant ((exp (theta ! 2))\<^sup>2)) (ExpSquared (exp (theta ! 3))))
                  (ExpSineSquared (exp (theta ! 4)) (exp (theta ! 5)))))
         (Product (Constant ((exp (theta ! 6))\<^sup>2))
                  (RationalQuadratic (exp (theta ! 7)) (exp (theta ! 8)))))
         (Product (Constant ((exp (theta ! 9))\<^sup>2)) (ExpSquared (exp (theta ! 10)))),
     X = xs, diag = (exp (theta ! 11))\<^sup>2, mean = theta ! 12\<rparr>"
proof -
  have "theta \<noteq> []" using assms by auto
  then have "last theta = theta ! 12"
    using assms by (simp add: last_conv_nth)
  then show ?thesis
    using assms by (simp add: build_gp_def Let_def jnp_index_exp)
qed

lemma covariance_shape:
  "length (covariance gp) = length (X gp)"
  "i < length (X gp) \<Longrightarrow> length (covariance gp ! i) = length (X gp)"
  by (simp_all add: covariance_def)

lemma covariance_entry:
  "i < length (X gp) \<Longrightarrow> j < length (X gp) \<Longrightarrow>
   covariance gp ! i ! j
     = evaluate (kernel gp) (X gp ! i) (X gp ! j) + (if i = j then diag gp else 0)"
  by (simp add: covariance_def)

lemma evaluate_built_kernel:
  assumes "length theta = 13" and "build_gp theta xs = Inr gp"
  shows "evaluate (kernel gp) x x' = composite (map exp (take 11 theta)) \<bar>x - x'\<bar>"
proof -
  have "gp = \<lparr>kernel =
       Sum (Sum (Sum
         (Product (Constant ((exp (theta ! 0))\<^sup>2)) (ExpSquared (exp (theta ! 1))))
         (Product (Product (Constant ((exp (theta ! 2))\<^sup>2)) (ExpSquared (exp (theta ! 3))))
                  (ExpSineSquared (exp (theta ! 4)) (exp (theta ! 5)))))
         (Product (Constant ((exp (theta ! 6))\<^sup>2))
                  (RationalQuadratic (exp (theta ! 7)) (exp (theta ! 8)))))
         (Product (Constant ((exp (theta ! 9))\<^sup>2)) (ExpSquared (exp (theta ! 10)))),
     X = xs, diag = (exp (theta ! 11))\<^sup>2, mean = theta ! 12\<rparr>"
    using assms build_gp_13[OF assms(1), of xs] by simp
  then show ?thesis
    using assms(1) by (simp add: composite_def SE_def Periodic_def RQ_def)
qed

text \<open>
  C1. For every vector \<open>theta\<close> of 13 reals and every input sequence, \<open>build_gp\<close> returns the
  model whose kernel is \<open>a0\<^sup>2 SE(l0) + a1\<^sup>2 SE(l1) Periodic(p, gamma) + a2\<^sup>2 RQ(alpha, l2) + a3\<^sup>2 SE(l3)\<close>,
  the eleven amplitudes and scales being \<open>exp\<close> of \<open>theta[0..10]\<close> in this order, both as
  an object and as a function of the distance; the training covariance has the shape of
  the inputs, and it adds the noise variance \<open>(exp theta[11])\<^sup>2\<close> to the entries with
  \<open>i = j\<close> and to no other entry.
\<close>

theorem build_gp_composite_kernel:
  assumes "length theta = 13"
  shows "\<exists>gp. build_gp theta xs = Inr gp
    \<and> kernel gp =
       Sum (Sum (Sum
         (Product (Constant ((exp (theta ! 0))\<^sup>2)) (ExpSquared (exp (theta ! 1))))
         (Product (Product (Constant ((exp (theta ! 2))\<^sup>2)) (ExpSquared (exp (theta ! 3))))
                  (ExpSineSquared (exp (theta ! 4)) (exp (theta ! 5)))))
         (Product (Constant ((exp (theta ! 6))\<^sup>2))
                  (RationalQuadratic (exp (theta ! 7)) (exp (theta ! 8)))))
         (Product (Constant ((exp (theta ! 9))\<^sup>2)) (ExpSquared (exp (theta ! 10))))
    \<and> (\<forall>x x'. evaluate (kernel gp) x x' = composite (map exp (take 11 theta)) \<bar>x - x'\<bar>)
    \<and> X gp = xs
    \<and> diag gp = (exp (theta ! 11))\<^sup>2
    \<and> length (covariance gp) = length xs
    \<and> (\<forall>i<length xs. length (covariance gp ! i) = length xs)
    \<and> (\<forall>i<length xs. \<forall>j<length xs.
          covariance gp ! i ! j
            = composite (map exp (take 11 theta)) \<bar>xs ! i - xs ! j\<bar>
              + (if i = j then (exp (theta ! 11))\<^sup>2 else 0))"
proof -
  from build_gp_13[OF assms, of xs] obtain gp where
    b: "build_gp theta xs = Inr gp"
    and k: "kernel gp =
       Sum (Sum (Sum
         (Product (Constant ((exp (theta ! 0))\<^sup>2)) (ExpSquared (exp (theta ! 1))))
         (Product (Product (Constant ((exp (theta ! 2))\<^sup>2)) (ExpSquared (exp (theta ! 3))))
                  (ExpSineSquared (exp (theta ! 4)) (exp (theta ! 5)))))
         (Product (Constant ((exp (theta ! 6))\<^sup>2))
                  (RationalQuadratic (exp (theta ! 7)) (exp (theta ! 8)))))
         (Product (Constant ((exp (theta ! 9))\<^sup>2)) (ExpSquared (exp (theta ! 10))))"
    and x: "X gp = xs" and d: "diag gp = (exp (theta ! 11))\<^sup>2"
    by simp
  have e: "\<And>x x'. evaluate (kernel gp) x x' = composite (map exp (take 11 theta)) \<bar>x - x'\<bar>"
    by (rule evaluate_built_kernel[OF assms b])
  have c: "\<And>i j. i < length xs \<Longrightarrow> j < length xs \<Longrightarrow>
      covariance gp ! i ! j = composite (map exp (take 11 theta)) \<bar>xs ! i - xs ! j\<bar>
              + (if i = j then (exp (theta ! 11))\<^sup>2 else 0)"
    by (simp only: covariance_entry x e d)
  have s: "length (covariance gp) = length xs"
      "\<And>i. i < length xs \<Longrightarrow> length (covariance gp ! i) = length xs"
    by (simp_all only: covariance_shape x)
  from b k e x d s c show ?thesis by blast
qed

theorem build_gp_composite_kernel_witness:
  "length (replicate 13 (0::real)) = 13
   \<and> (\<exists>gp. build_gp (replicate 13 0) [0, 1] = Inr gp
        \<and> diag gp = 1
        \<and> covariance gp ! 0 ! 0 = composite (replicate 11 1) 0 + 1
        \<and> covariance gp ! 0 ! 1 = composite (replicate 11 1) 1)"
proof -
  have h: "length (replicate 13 (0::real)) = 13" by simp
  have t: "map exp (take 11 (replicate 13 (0::real))) = replicate 11 1" by simp
  from build_gp_composite_kernel[OF h, of "[0, 1]"] obtain gp where
    g: "build_gp (replicate 13 0) [0, 1] = Inr gp"
       "diag gp = (exp (replicate 13 0 ! 11))\<^sup>2"
       "\<forall>i<length [0::real, 1]. \<forall>j<length [0::real, 1].
          covariance gp ! i ! j
            = composite (map exp (take 11 (replicate 13 0))) \<bar>[0, 1] ! i - [0, 1] ! j\<bar>
              + (if i = j then (exp (replicate 13 0 ! 11))\<^sup>2 else 0)"
    by blast
  from g(3) have "covariance gp ! 0 ! 0 = composite (replicate 11 1) 0 + 1"
    unfolding t by simp
  moreover from g(3) have "covariance gp ! 0 ! 1 = composite (replicate 11 1) 1"
    unfolding t by (simp add: numeral_2_eq_2)
  ultimately show ?thesis using h g(1,2) by simp
qed

section \<open>Closure of positive semi-definite functions\<close>

text \<open>
  A function \<open>f x * f y\<close> has the square \<open>(\<Sum>i. c\<^sub>i f(x\<^sub>i))\<^sup>2\<close> as its quadratic form. Sums,
  non-negative multiples and pointwise limits keep a quadratic form non-negative, and
  weighting a function by \<open>f x * f y\<close> only changes the weights \<open>c\<close>. So the functions
  of class \<open>pmult\<close> contain the rank-one functions and are closed under sums, products,
  non-negative factors, limits, convergent series and \<open>exp\<close>.
\<close>

lemma quad_form_rank1:
  "quad_form (\<lambda>x y. f x * f y) xs c = (\<Sum>i<length xs. c ! i * f (xs ! i))\<^sup>2"
proof -
  have "(\<Sum>i<length xs. c ! i * f (xs ! i))\<^sup>2
      = (\<Sum>i<length xs. \<Sum>j<length xs. (c ! i * f (xs ! i)) * (c ! j * f (xs ! j)))"
    by (simp add: power2_eq_square sum_product)
  also have "\<dots> = quad_form (\<lambda>x y. f x * f y) xs c"
    unfolding quad_form_def by (intro sum.cong refl) (simp add: mult_ac)
  finally show ?thesis by simp
qed

lemma psd_rank1: "psd (\<lambda>x y. f x * f y)"
  by (simp add: psd_def quad_form_rank1)

lemma quad_form_add:
  "quad_form (\<lambda>x y. k x y + k' x y) xs c = quad_form k xs c + quad_form k' xs c"
  by (simp add: quad_form_def distrib_left sum.distrib)

lemma quad_form_scale:
  "quad_form (\<lambda>x y. a * k x y) xs c = a * quad_form k xs c"
proof -
  have "quad_form (\<lambda>x y. a * k x y) xs c
      = (\<Sum>i<length xs. \<Sum>j<length xs. a * (c ! i * c ! j * k (xs ! i) (xs ! j)))"
    unfolding quad_form_def by (intro sum.cong refl) (simp add: mult_ac)
  then show ?thesis by (simp add: quad_form_def sum_distrib_left)
qed

lemma quad_form_weight:
  assumes "length c = length xs"
  shows "quad_form (\<lambda>x y. f x * f y * k x y) xs c
       = quad_form k xs (map (\<lambda>(a, x). a * f x) (zip c xs))"
  unfolding quad_form_def using assms by (intro sum.cong refl) (simp add: mult_ac)

lemma psd_add: "psd k \<Longrightarrow> psd k' \<Longrightarrow> psd (\<lambda>x y. k x y + k' x y)"
  by (simp add: psd_def quad_form_add)

lemma psd_scale: "0 \<le> a \<Longrightarrow> psd k \<Longrightarrow> psd (\<lambda>x y. a * k x y)"
  by (simp add: psd_def quad_form_scale)

lemma psd_weight: "psd k \<Longrightarrow> psd (\<lambda>x y. f x * f y * k x y)"
  by (simp add: psd_def quad_form_weight)

lemma psd_one: "psd (\<lambda>x y. 1)"
  using psd_rank1[of "\<lambda>x. 1"] by simp

lemma psd_zero: "psd (\<lambda>x y. 0)"
  using psd_rank1[of "\<lambda>x. 0"] by simp

lemma quad_form_tendsto:
  assumes "\<And>x y. (\<lambda>N. kN N x y) \<longlonglongrightarrow> k x y"
  shows "(\<lambda>N. quad_form (kN N) xs c) \<longlonglongrightarrow> quad_form k xs c"
  unfolding quad_form_def by (intro tendsto_sum tendsto_mult tendsto_const assms)

lemma psd_limit:
  assumes lim: "\<And>x y. (\<lambda>N. kN N x y) \<longlonglongrightarrow> k x y"
    and psd: "\<And>N. psd (kN N)"
  shows "psd k"
  unfolding psd_def
proof (intro allI impI)
  fix xs c :: "real list"
  assume len: "length c = length xs"
  have "\<forall>N\<ge>0. 0 \<le> quad_form (kN N) xs c"
    using psd len by (simp add: psd_def)
  then have "\<exists>M. \<forall>N\<ge>M. 0 \<le> quad_form (kN N) xs c" by blast
  with quad_form_tendsto[of kN k xs c, OF lim] show "0 \<le> quad_form k xs c"
    by (rule LIMSEQ_le_const)
qed

lemma pmult_psd: "pmult w \<Longrightarrow> psd w"
  using psd_one by (auto simp: pmult_def dest!: spec[of _ "\<lambda>x y. 1"])

lemma pmult_rank1: "pmult (\<lambda>x y. f x * f y)"
  by (simp add: pmult_def psd_weight)

lemma pmult_add: "pmult w \<Longrightarrow> pmult w' \<Longrightarrow> pmult (\<lambda>x y. w x y + w' x y)"
  by (simp add: pmult_def distrib_right psd_add)

lemma pmult_const: "0 \<le> a \<Longrightarrow> pmult (\<lambda>x y. a)"
  by (simp add: pmult_def psd_scale)

lemma pmult_mult: "pmult w \<Longrightarrow> pmult w' \<Longrightarrow> pmult (\<lambda>x y. w x y * w' x y)"
  by (simp add: pmult_def mult.assoc)

lemma pmult_scale: "0 \<le> a \<Longrightarrow> pmult w \<Longrightarrow> pmult (\<lambda>x y. a * w x y)"
  by (rule pmult_mult[OF pmult_const])

lemma pmult_power: "pmult w \<Longrightarrow> pmult (\<lambda>x y. w x y ^ n)"
proof (induction n)
  case 0
  then show ?case by (simp add: pmult_const)
next
  case (Suc n)
  then show ?case by (simp add: pmult_mult)
qed

lemma pmult_limit:
  assumes lim: "\<And>x y. (\<lambda>N. wN N x y) \<longlonglongrightarrow> w x y"
    and pm: "\<And>N. pmult (wN N)"
  shows "pmult w"
  unfolding pmult_def
proof (intro allI impI)
  fix k assume k: "psd k"
  show "psd (\<lambda>x y. w x y * k x y)"
  proof (rule psd_limit)
    show "(\<lambda>N. wN N x y * k x y) \<longlonglongrightarrow> w x y * k x y" for x y
      by (intro tendsto_mult tendsto_const lim)
    show "psd (\<lambda>x y. wN N x y * k x y)" for N
      using pm k by (simp add: pmult_def)
  qed
qed

lemma pmult_sum:
  assumes "\<And>n. pmult (t n)"
  shows "pmult (\<lambda>x y. \<Sum>n<(N::nat). t n x y)"
proof (induction N)
  case 0
  show ?case by (simp add: pmult_const)
next
  case (Suc N)
  with assms[of N] show ?case by (simp add: pmult_add)
qed

lemma pmult_sums:
  assumes "\<And>x y. (\<lambda>n. t n x y) sums w x y" and "\<And>n. pmult (t n)"
  shows "pmult w"
proof (rule pmult_limit)
  show "(\<lambda>N. \<Sum>n<N. t n x y) \<longlonglongrightarrow> w x y" for x y
    using assms(1)[of x y] by (simp add: sums_def)
  show "pmult (\<lambda>x y. \<Sum>n<N. t n x y)" for N
    by (rule pmult_sum) (rule assms(2))
qed

lemma pmult_exp:
  assumes "pmult w"
  shows "pmult (\<lambda>x y. exp (w x y))"
proof (rule pmult_sums)
  show "(\<lambda>n. inverse (fact n) * w x y ^ n) sums exp (w x y)" for x y
    using exp_converges[of "w x y"] by (simp add: scaleR_conv_of_real)
  show "pmult (\<lambda>x y. inverse (fact n) * w x y ^ n)" for n
    by (intro pmult_scale pmult_power assms) simp
qed

section \<open>The primitive kernels are positive semi-definite\<close>

text \<open>
  Each primitive is written with rank-one functions, products and series:
  \<open>exp(-c (x-y)\<^sup>2) = exp(-c x\<^sup>2) exp(-c y\<^sup>2) exp(2 c x y)\<close>;
  \<open>sin\<^sup>2 u = (1 - cos 2u) / 2\<close> and \<open>cos(a x - a y) = cos(a x) cos(a y) + sin(a x) sin(a y)\<close>;
  and \<open>1 + c (x-y)\<^sup>2 = A(x) A(y) (1 - z(x,y))\<close> for \<open>A(x) = 1 + c x\<^sup>2\<close> and a function \<open>z\<close> of
  rank two with \<open>|z| < 1\<close>, so that \<open>(1 - z)\<^sup>-\<^sup>a = exp(a (z + z\<^sup>2/2 + z\<^sup>3/3 + ...))\<close>.
\<close>

lemma pmult_cong: "pmult w \<Longrightarrow> (\<And>x y. w' x y = w x y) \<Longrightarrow> pmult w'"
proof -
  assume a: "pmult w" and b: "\<And>x y. w' x y = w x y"
  have "w' = w" by (intro ext) (rule b)
  with a show ?thesis by simp
qed

lemma pmult_gauss:
  assumes "0 \<le> c"
  shows "pmult (\<lambda>x y. exp (- c * (x - y)\<^sup>2))"
proof (rule pmult_cong)
  show "pmult (\<lambda>x y. (exp (- c * x\<^sup>2) * exp (- c * y\<^sup>2)) * exp ((2 * c) * (x * y)))"
    using assms by (intro pmult_mult pmult_rank1 pmult_exp pmult_scale) simp
  show "exp (- c * (x - y)\<^sup>2) = (exp (- c * x\<^sup>2) * exp (- c * y\<^sup>2)) * exp ((2 * c) * (x * y))"
    for x y
  proof -
    have "- c * (x - y)\<^sup>2 = - c * x\<^sup>2 + - c * y\<^sup>2 + (2 * c) * (x * y)"
      by (simp add: power2_diff algebra_simps)
    then show ?thesis by (simp only: exp_add)
  qed
qed

lemma pmult_cos: "pmult (\<lambda>x y. cos (a * (x - y)))"
proof (rule pmult_cong)
  show "pmult (\<lambda>x y. cos (a * x) * cos (a * y) + sin (a * x) * sin (a * y))"
    by (intro pmult_add pmult_rank1)
  show "cos (a * (x - y)) = cos (a * x) * cos (a * y) + sin (a * x) * sin (a * y)" for x y
    by (simp add: right_diff_distrib cos_diff)
qed

lemma sin_squared_abs: "(sin (a * \<bar>d\<bar> / p))\<^sup>2 = (sin (a * d / p))\<^sup>2" for a d p :: real
proof (cases "0 \<le> d")
  case True
  then show ?thesis by simp
next
  case False
  then have "a * \<bar>d\<bar> / p = - (a * d / p)" by simp
  then show ?thesis by (simp only: sin_minus power2_minus)
qed

lemma pmult_periodic:
  assumes "0 \<le> g"
  shows "pmult (\<lambda>x y. exp (- g * (sin (pi * \<bar>x - y\<bar> / p))\<^sup>2))"
proof (rule pmult_cong)
  show "pmult (\<lambda>x y. exp (- g / 2) * exp ((g / 2) * cos ((2 * pi / p) * (x - y))))"
    using assms by (intro pmult_scale pmult_exp pmult_cos) simp_all
  show "exp (- g * (sin (pi * \<bar>x - y\<bar> / p))\<^sup>2)
      = exp (- g / 2) * exp ((g / 2) * cos ((2 * pi / p) * (x - y)))" for x y
  proof -
    define s where "s = (sin (pi * (x - y) / p))\<^sup>2"
    define C where "C = cos ((2 * pi / p) * (x - y))"
    have "C = cos (2 * (pi * (x - y) / p))"
      unfolding C_def by (simp add: mult_ac)
    also have "\<dots> = 1 - 2 * s"
      unfolding s_def by (rule cos_double_sin)
    finally have Ceq: "C = 1 - 2 * s" .
    have "- g * s = - g / 2 + (g / 2) * C"
      unfolding Ceq by (simp add: algebra_simps)
    then have "- g * (sin (pi * (x - y) / p))\<^sup>2
        = - g / 2 + (g / 2) * cos ((2 * pi / p) * (x - y))"
      unfolding s_def C_def .
    then show ?thesis
      by (simp only: sin_squared_abs exp_add)
  qed
qed

lemma log_series_sums:
  fixes z :: real
  assumes "\<bar>z\<bar> < 1"
  shows "(\<lambda>n. (1 / real (n + 1)) * z ^ Suc n) sums (- ln (1 - z))"
proof -
  let ?f = "\<lambda>n. (1 / real (n + 1)) * z ^ Suc n"
  have s: "summable ?f"
  proof (rule summable_comparison_test)
    show "summable (\<lambda>n. \<bar>z\<bar> ^ n)"
      using assms by (simp add: summable_geometric)
    have "norm (?f n) \<le> \<bar>z\<bar> ^ n" for n
    proof -
      have "norm (?f n) = (1 / real (n + 1)) * (\<bar>z\<bar> ^ n * \<bar>z\<bar>)"
        by (simp add: abs_mult power_abs)
      also have "\<dots> \<le> 1 * (\<bar>z\<bar> ^ n * 1)"
        using assms by (intro mult_mono) (simp_all add: field_simps)
      finally show ?thesis by simp
    qed
    then show "\<exists>N. \<forall>n\<ge>N. norm (?f n) \<le> \<bar>z\<bar> ^ n" by blast
  qed
  have "ln (1 - z) = (\<Sum>n. (- 1) ^ n * (1 / real (n + 1)) * (1 - z - 1) ^ Suc n)"
    using assms by (intro ln_series) auto
  also have "(\<lambda>n. (- 1) ^ n * (1 / real (n + 1)) * (1 - z - 1) ^ Suc n) = (\<lambda>n. - ?f n)"
  proof
    fix n
    define u where "u = z ^ Suc n"
    define q where "q = 1 / real (n + 1)"
    define a b :: real where "a = (- 1) ^ n" and "b = (- 1) ^ Suc n"
    have "1 - z - 1 = - z" by simp
    then have pw: "(1 - z - 1) ^ Suc n = b * u"
      unfolding b_def u_def by (simp only: power_minus[of z "Suc n"])
    have ab: "a * b = - 1"
      unfolding a_def b_def by (simp flip: power_add)
    have "a * q * (1 - z - 1) ^ Suc n = (a * b) * (q * u)"
      unfolding pw by (simp only: mult_ac)
    also have "\<dots> = - (q * u)" unfolding ab by simp
    finally show "(- 1) ^ n * (1 / real (n + 1)) * (1 - z - 1) ^ Suc n = - ?f n"
      unfolding a_def q_def u_def .
  qed
  also have "(\<Sum>n. - ?f n) = - suminf ?f"
    using s by (rule suminf_minus)
  finally have "suminf ?f = - ln (1 - z)" by simp
  with summable_sums[OF s] show ?thesis by simp
qed

lemma pmult_rational_quadratic:
  assumes c: "0 \<le> c" and a: "0 \<le> a"
  shows "pmult (\<lambda>x y. (1 + c * (x - y)\<^sup>2) powr (- a))"
proof -
  define A where "A x = 1 + c * x\<^sup>2" for x :: real
  have A1: "1 \<le> A x" for x using c by (simp add: A_def)
  then have A0: "0 < A x" for x by (rule less_le_trans[OF zero_less_one])
  define z where "z x y = (2 * c) * ((x / A x) * (y / A y)) + c\<^sup>2 * ((x\<^sup>2 / A x) * (y\<^sup>2 / A y))"
    for x y :: real
  have pz: "pmult z"
    unfolding z_def using c by (intro pmult_add pmult_scale pmult_rank1) simp_all
  have zA: "z x y * (A x * A y) = 2 * c * x * y + c\<^sup>2 * x\<^sup>2 * y\<^sup>2" for x y
  proof -
    have "A x \<noteq> 0" "A y \<noteq> 0" using A0[of x] A0[of y] by simp_all
    then show ?thesis unfolding z_def by (simp add: field_simps)
  qed
  have key: "(1 - z x y) * (A x * A y) = 1 + c * (x - y)\<^sup>2" for x y
  proof -
    have "(1 - z x y) * (A x * A y) = A x * A y - z x y * (A x * A y)"
      by (simp add: algebra_simps)
    also have "\<dots> = 1 + c * (x - y)\<^sup>2"
      unfolding zA unfolding A_def by (simp add: power2_diff power2_eq_square algebra_simps)
    finally show ?thesis .
  qed
  have AA: "0 < A x * A y" for x y using A0 by simp
  have num: "1 \<le> 1 + c * (x - y)\<^sup>2" for x y using c by simp
  have lo: "0 < 1 - z x y" for x y
  proof -
    have "0 < (1 - z x y) * (A x * A y)" unfolding key using num[of x y] by simp
    then show ?thesis using AA[of x y] by (simp add: zero_less_mult_iff)
  qed
  have hi: "1 - z x y < 2" for x y
  proof -
    have "(x - y)\<^sup>2 \<le> 2 * x\<^sup>2 + 2 * y\<^sup>2"
      using zero_le_power2[of "x + y"] by (simp add: power2_sum power2_diff)
    then have "c * (x - y)\<^sup>2 \<le> c * (2 * x\<^sup>2 + 2 * y\<^sup>2)"
      using c by (rule mult_left_mono)
    then have h1: "c * (x - y)\<^sup>2 \<le> 2 * (c * x\<^sup>2) + 2 * (c * y\<^sup>2)"
      by (simp add: algebra_simps)
    have h2: "0 \<le> c\<^sup>2 * x\<^sup>2 * y\<^sup>2" by simp
    have h3: "A x * A y = 1 + c * x\<^sup>2 + c * y\<^sup>2 + c\<^sup>2 * x\<^sup>2 * y\<^sup>2"
      unfolding A_def by (simp add: power2_eq_square algebra_simps)
    have "1 + c * (x - y)\<^sup>2 < 2 * (A x * A y)"
      using h1 h2 h3 by linarith
    then have "(1 - z x y) * (A x * A y) < 2 * (A x * A y)" unfolding key .
    then show ?thesis by (simp only: mult_less_cancel_right_pos[OF AA])
  qed
  have abs_z: "\<bar>z x y\<bar> < 1" for x y using lo[of x y] hi[of x y] by simp
  define S where "S x y = - ln (1 - z x y)" for x y
  have pS: "pmult S"
  proof (rule pmult_sums)
    show "(\<lambda>n. (1 / real (n + 1)) * z x y ^ Suc n) sums S x y" for x y
      unfolding S_def by (rule log_series_sums[OF abs_z])
    show "pmult (\<lambda>x y. (1 / real (n + 1)) * z x y ^ Suc n)" for n
      by (intro pmult_scale pmult_power pz) simp
  qed
  show ?thesis
  proof (rule pmult_cong)
    show "pmult (\<lambda>x y. (A x powr (- a) * A y powr (- a)) * exp (a * S x y))"
      using a by (intro pmult_mult pmult_rank1 pmult_exp pmult_scale pS)
    show "(1 + c * (x - y)\<^sup>2) powr (- a) = (A x powr (- a) * A y powr (- a)) * exp (a * S x y)"
      for x y
    proof -
      have "(1 + c * (x - y)\<^sup>2) powr (- a) = ((1 - z x y) * (A x * A y)) powr (- a)"
        by (simp only: key)
      also have "\<dots> = (1 - z x y) powr (- a) * (A x powr (- a) * A y powr (- a))"
        using lo[of x y] A0[of x] A0[of y] by (simp add: powr_mult)
      also have "(1 - z x y) powr (- a) = exp (a * S x y)"
        using lo[of x y] by (simp add: powr_def S_def)
      finally show ?thesis by (simp add: mult_ac)
    qed
  qed
qed

section \<open>The kernel that \<open>build_gp\<close> composes\<close>

lemma evaluate_sym: "evaluate k x x' = evaluate k x' x"
  by (induction k) (simp_all add: abs_minus_commute)

lemma admissible_pmult: "admissible k \<Longrightarrow> pmult (evaluate k)"
proof (induction k)
  case (Constant c)
  then have "pmult (\<lambda>x y. c)" by (simp add: pmult_const)
  then show ?case by (rule pmult_cong) simp
next
  case (ExpSquared l)
  have "pmult (\<lambda>x y. exp (- (1 / (2 * l\<^sup>2)) * (x - y)\<^sup>2))"
    by (rule pmult_gauss) simp
  then show ?case by (rule pmult_cong) simp
next
  case (ExpSineSquared p g)
  then have "pmult (\<lambda>x y. exp (- g * (sin (pi * \<bar>x - y\<bar> / p))\<^sup>2))"
    by (intro pmult_periodic) simp
  then show ?case by (rule pmult_cong) simp
next
  case (RationalQuadratic a l)
  then have "pmult (\<lambda>x y. (1 + (1 / (2 * a * l\<^sup>2)) * (x - y)\<^sup>2) powr (- a))"
    by (intro pmult_rational_quadratic) simp_all
  then show ?case by (rule pmult_cong) simp
next
  case (Sum k1 k2)
  then have "pmult (\<lambda>x y. evaluate k1 x y + evaluate k2 x y)"
    by (simp add: pmult_add)
  then show ?case by (rule pmult_cong) simp
next
  case (Product k1 k2)
  then have "pmult (\<lambda>x y. evaluate k1 x y * evaluate k2 x y)"
    by (simp add: pmult_mult)
  then show ?case by (rule pmult_cong) simp
qed

lemma gram_shape:
  "length (gram k xs xs') = length xs"
  "i < length xs \<Longrightarrow> length (gram k xs xs' ! i) = length xs'"
  by (simp_all add: gram_def)

lemma gram_entry:
  "i < length xs \<Longrightarrow> j < length xs' \<Longrightarrow> gram k xs xs' ! i ! j = evaluate k (xs ! i) (xs' ! j)"
  by (simp add: gram_def)

lemma gram_symmetric: "symmetric (gram k xs xs)"
  unfolding symmetric_def by (simp add: gram_shape gram_entry evaluate_sym)

lemma gram_quad_form:
  "(\<Sum>i<length (gram k xs xs). \<Sum>j<length (gram k xs xs). c ! i * c ! j * gram k xs xs ! i ! j)
     = quad_form (evaluate k) xs c"
  unfolding quad_form_def by (simp add: gram_shape gram_entry)

lemma admissible_gram_psd:
  assumes "admissible k"
  shows "positive_semidefinite (gram k xs xs)"
proof -
  have "psd (evaluate k)" using assms by (intro pmult_psd admissible_pmult)
  then show ?thesis
    unfolding positive_semidefinite_def gram_quad_form
    by (simp add: psd_def gram_shape)
qed

lemma jnp_index_exp_pos:
  assumes "l \<noteq> []"
  shows "0 < jnp_index (map exp l) i"
proof -
  have "min i (length l - 1) < length l" using assms by (cases l) auto
  then have "jnp_index (map exp l) i = exp (l ! min i (length l - 1))"
    by (simp add: jnp_index_def)
  then show ?thesis by simp
qed

lemma build_gp_admissible:
  assumes "build_gp theta xs = Inr gp"
  shows "admissible (kernel gp)"
proof -
  have len: "\<not> length theta < 2" using assms by (auto simp: build_gp_def)
  then have ne: "butlast theta \<noteq> []" by (cases theta) auto
  have k: "kernel gp =
     (let th = map exp (butlast theta) in
      Sum (Sum (Sum
        (Product (Constant ((jnp_index th 0)\<^sup>2)) (ExpSquared (jnp_index th 1)))
        (Product (Product (Constant ((jnp_index th 2)\<^sup>2)) (ExpSquared (jnp_index th 3)))
                 (ExpSineSquared (jnp_index th 4) (jnp_index th 5))))
        (Product (Constant ((jnp_index th 6)\<^sup>2))
                 (RationalQuadratic (jnp_index th 7) (jnp_index th 8))))
        (Product (Constant ((jnp_index th 9)\<^sup>2)) (ExpSquared (jnp_index th 10))))"
    using assms len by (auto simp: build_gp_def Let_def)
  show ?thesis
    unfolding k Let_def using jnp_index_exp_pos[OF ne] by simp
qed

section \<open>Eliminating indices in another order\<close>

text \<open>
  Eliminating two indices in either order leaves the same Schur complement, the same
  residual and the same two contributions to the log-density, and fails in the same
  cases. Every reordering of a list of distinct indices is a chain of such swaps. A
  symmetric positive definite matrix has positive pivots throughout, because its Schur
  complements are positive definite again.
\<close>

lemma gauss_logpdf_single:
  assumes "0 < m i i"
  shows "gauss_logpdf m r [i] = Some (- (r i)\<^sup>2 / (2 * m i i) - ln (2 * pi * m i i) / 2)"
proof -
  have "ln (2 * pi * m i i) = ln (2 * pi) + ln (m i i)"
    using assms by (simp add: ln_mult_pos)
  then show ?thesis using assms by (simp add: field_simps)
qed

lemma symmetric_fn_schur: "symmetric_fn m \<Longrightarrow> symmetric_fn (schur m i)"
  by (simp add: symmetric_fn_def schur_def mult.commute)

lemma eliminate_two:
  fixes A B C P Q R S T :: real
  assumes A: "0 < A" and B: "0 < B" and D: "0 < A * B - C * C"
  shows "T - P * R / A - (Q - P * C / A) * (S - C * R / A) / (B - C * C / A)
       = T - Q * S / B - (P - Q * C / B) * (R - C * S / B) / (A - C * C / B)"
proof -
  have A0: "A \<noteq> 0" and B0: "B \<noteq> 0" and D0: "A * B - C * C \<noteq> 0"
    using assms by simp_all
  have pivA: "B - C * C / A = (A * B - C * C) / A" using A0 by (simp add: field_simps)
  have pivB: "A - C * C / B = (A * B - C * C) / B" using B0 by (simp add: field_simps)
  have l: "(Q - P * C / A) * (S - C * R / A) / (B - C * C / A)
         = (A * Q - P * C) * (A * S - C * R) / (A * (A * B - C * C))"
    unfolding pivA using A0 D0 by (simp add: field_simps)
  have r: "(P - Q * C / B) * (R - C * S / B) / (A - C * C / B)
         = (B * P - Q * C) * (B * R - C * S) / (B * (A * B - C * C))"
    unfolding pivB using B0 D0 by (simp add: field_simps)
  have "P * R / A + (A * Q - P * C) * (A * S - C * R) / (A * (A * B - C * C))
      = Q * S / B + (B * P - Q * C) * (B * R - C * S) / (B * (A * B - C * C))"
    using A0 B0 D0 by (simp add: field_simps)
  then show ?thesis unfolding l r by simp
qed

lemma second_pivot:
  fixes A B C :: real
  assumes "0 < A"
  shows "B - C * C / A = (A * B - C * C) / A"
  using assms by (simp add: field_simps)

lemma second_pivot_pos:
  fixes A B C :: real
  assumes "0 < A"
  shows "0 < B - C * C / A \<longleftrightarrow> 0 < A * B - C * C"
  unfolding second_pivot[OF assms] using assms by (simp add: zero_less_divide_iff)

lemma ln_two_pivots:
  fixes A B C :: real
  assumes A: "0 < A" and D: "0 < A * B - C * C"
  shows "ln A + ln (B - C * C / A) = ln (A * B - C * C)"
proof -
  have "0 < B - C * C / A" using second_pivot_pos[OF A] D by simp
  then have "ln A + ln (B - C * C / A) = ln (A * (B - C * C / A))"
    using A by (simp add: ln_mult_pos)
  also have "A * (B - C * C / A) = A * B - C * C"
    using A by (simp add: field_simps)
  finally show ?thesis .
qed

lemma quadratic_two_pivots:
  fixes A B C u v :: real
  assumes A: "0 < A" and D: "0 < A * B - C * C"
  shows "u\<^sup>2 / A + (v - C * u / A)\<^sup>2 / (B - C * C / A)
       = (B * u\<^sup>2 - 2 * C * u * v + A * v\<^sup>2) / (A * B - C * C)"
proof -
  have A0: "A \<noteq> 0" and D0: "A * B - C * C \<noteq> 0" using assms by simp_all
  have "(v - C * u / A)\<^sup>2 / (B - C * C / A) = (A * v - C * u)\<^sup>2 / (A * (A * B - C * C))"
    unfolding second_pivot[OF A] using A0 D0 by (simp add: field_simps power2_eq_square)
  then show ?thesis
    using A0 D0 by (simp add: field_simps power2_eq_square)
qed

lemma gauss_logpdf_swap:
  assumes s: "symmetric_fn m"
  shows "gauss_logpdf m r (i # j # l) = gauss_logpdf m r (j # i # l)"
proof -
  define A B C where "A = m i i" and "B = m j j" and "C = m i j"
  have ji: "m j i = C" using s by (simp add: symmetric_fn_def C_def)
  have pj: "schur m i j j = B - C * C / A"
    by (simp add: schur_def ji A_def B_def C_def)
  have pi: "schur m j i i = A - C * C / B"
    by (simp add: schur_def ji A_def B_def C_def)
  have rj: "residual m r i j = r j - C * r i / A"
    by (simp add: residual_def ji A_def)
  have ri: "residual m r j i = r i - C * r j / B"
    by (simp add: residual_def B_def C_def)
  have l: "gauss_logpdf m r (i # j # l) =
      (if A \<le> 0 then None else if B - C * C / A \<le> 0 then None
       else map_option (\<lambda>v. v - ((r j - C * r i / A)\<^sup>2 / (B - C * C / A) + ln (B - C * C / A) + ln (2 * pi)) / 2
                               - ((r i)\<^sup>2 / A + ln A + ln (2 * pi)) / 2)
              (gauss_logpdf (schur (schur m i) j) (residual (schur m i) (residual m r i) j) l))"
    by (simp add: pj rj option.map_comp comp_def flip: A_def)
  have r: "gauss_logpdf m r (j # i # l) =
      (if B \<le> 0 then None else if A - C * C / B \<le> 0 then None
       else map_option (\<lambda>v. v - ((r i - C * r j / B)\<^sup>2 / (A - C * C / B) + ln (A - C * C / B) + ln (2 * pi)) / 2
                               - ((r j)\<^sup>2 / B + ln B + ln (2 * pi)) / 2)
              (gauss_logpdf (schur (schur m j) i) (residual (schur m j) (residual m r j) i) l))"
    by (simp add: pi ri option.map_comp comp_def flip: B_def)
  consider "A \<le> 0" | "0 < A" "B \<le> 0" | "0 < A" "0 < B" "A * B - C * C \<le> 0"
    | "0 < A" "0 < B" "0 < A * B - C * C"
    by linarith
  then show ?thesis
  proof cases
    case 1
    have "B \<le> 0 \<or> A - C * C / B \<le> 0"
    proof (cases "0 < B")
      case True
      then have "0 \<le> C * C / B" by simp
      with 1 show ?thesis by linarith
    next
      case False
      then show ?thesis by simp
    qed
    then show ?thesis unfolding l r using 1 by auto
  next
    case 2
    have "0 \<le> C * C / A" using 2(1) by simp
    then have "B - C * C / A \<le> 0" using 2(2) by linarith
    then show ?thesis unfolding l r using 2 by auto
  next
    case 3
    have "\<not> 0 < B - C * C / A" using second_pivot_pos[OF 3(1), of B C] 3(3) by simp
    moreover have "\<not> 0 < A - C * C / B"
      using second_pivot_pos[OF 3(2), of A C] 3(3) by (simp add: mult.commute)
    ultimately show ?thesis unfolding l r by auto
  next
    case 4
    have D': "0 < B * A - C * C" using 4(3) by (simp add: mult.commute)
    have p1: "0 < B - C * C / A" using second_pivot_pos[OF 4(1), of B C] 4(3) by simp
    have p2: "0 < A - C * C / B" using second_pivot_pos[OF 4(2), of A C] D' by simp
    have m2: "schur (schur m i) j = schur (schur m j) i"
    proof (intro ext)
      fix x y
      show "schur (schur m i) j x y = schur (schur m j) i x y"
        using eliminate_two[OF 4, of "m x y" "m x i" "m i y" "m x j" "m j y"]
        by (simp add: schur_def ji flip: A_def B_def C_def)
    qed
    have r2: "residual (schur m i) (residual m r i) j = residual (schur m j) (residual m r j) i"
    proof (intro ext)
      fix x
      show "residual (schur m i) (residual m r i) j x = residual (schur m j) (residual m r j) i x"
        using eliminate_two[OF 4, of "r x" "m x i" "r i" "m x j" "r j"]
        by (simp add: schur_def residual_def ji flip: A_def B_def C_def)
    qed
    have q: "(r i)\<^sup>2 / A + (r j - C * r i / A)\<^sup>2 / (B - C * C / A)
           = (r j)\<^sup>2 / B + (r i - C * r j / B)\<^sup>2 / (A - C * C / B)"
      unfolding quadratic_two_pivots[OF 4(1,3)] quadratic_two_pivots[OF 4(2) D']
      by (simp add: mult_ac add_ac)
    have d: "ln A + ln (B - C * C / A) = ln B + ln (A - C * C / B)"
      unfolding ln_two_pivots[OF 4(1,3)] ln_two_pivots[OF 4(2) D'] by (simp add: mult.commute)
    have "((r j - C * r i / A)\<^sup>2 / (B - C * C / A) + ln (B - C * C / A) + ln (2 * pi)) / 2
            + ((r i)\<^sup>2 / A + ln A + ln (2 * pi)) / 2
        = ((r i - C * r j / B)\<^sup>2 / (A - C * C / B) + ln (A - C * C / B) + ln (2 * pi)) / 2
            + ((r j)\<^sup>2 / B + ln B + ln (2 * pi)) / 2"
      using q d by (simp add: field_simps)
    then have "(\<lambda>v::real. v - ((r j - C * r i / A)\<^sup>2 / (B - C * C / A) + ln (B - C * C / A) + ln (2 * pi)) / 2
                               - ((r i)\<^sup>2 / A + ln A + ln (2 * pi)) / 2)
        = (\<lambda>v. v - ((r i - C * r j / B)\<^sup>2 / (A - C * C / B) + ln (A - C * C / B) + ln (2 * pi)) / 2
                               - ((r j)\<^sup>2 / B + ln B + ln (2 * pi)) / 2)"
      by (intro ext) linarith
    then show ?thesis
      unfolding l r m2 r2 using 4(1,2) p1 p2 by simp
  qed
qed

lemma gauss_logpdf_front:
  assumes "symmetric_fn m"
  shows "gauss_logpdf m r (q1 @ i # q2) = gauss_logpdf m r (i # q1 @ q2)"
  using assms
proof (induction q1 arbitrary: m r)
  case Nil
  show ?case by simp
next
  case (Cons j q1)
  have "gauss_logpdf (schur m j) (residual m r j) (q1 @ i # q2)
      = gauss_logpdf (schur m j) (residual m r j) (i # q1 @ q2)"
    by (rule Cons.IH) (rule symmetric_fn_schur[OF Cons.prems])
  then have "gauss_logpdf m r (j # q1 @ i # q2) = gauss_logpdf m r (j # i # q1 @ q2)"
    by (simp only: gauss_logpdf.simps)
  also have "\<dots> = gauss_logpdf m r (i # j # q1 @ q2)"
    by (rule gauss_logpdf_swap[OF Cons.prems])
  finally show ?case by simp
qed

lemma gauss_logpdf_permutation:
  assumes "symmetric_fn m" and "distinct p" and "distinct q" and "set p = set q"
  shows "gauss_logpdf m r p = gauss_logpdf m r q"
  using assms
proof (induction p arbitrary: q m r)
  case Nil
  then show ?case by simp
next
  case (Cons i p)
  from Cons.prems(4) have "i \<in> set q" by auto
  then obtain q1 q2 where q: "q = q1 @ i # q2" by (auto dest: split_list)
  from Cons.prems(3) q have d: "distinct (q1 @ q2)" and n: "i \<notin> set (q1 @ q2)" by auto
  from Cons.prems(2) have d': "distinct p" and n': "i \<notin> set p" by auto
  from Cons.prems(4) q n n' have s: "set p = set (q1 @ q2)" by auto
  have "gauss_logpdf (schur m i) (residual m r i) p
      = gauss_logpdf (schur m i) (residual m r i) (q1 @ q2)"
    by (rule Cons.IH[OF symmetric_fn_schur[OF Cons.prems(1)] d' d s])
  then have "gauss_logpdf m r (i # p) = gauss_logpdf m r (i # q1 @ q2)"
    by (simp only: gauss_logpdf.simps)
  also have "\<dots> = gauss_logpdf m r q"
    unfolding q by (rule gauss_logpdf_front[OF Cons.prems(1), symmetric])
  finally show ?case .
qed

lemma gauss_logpdf_cong:
  assumes "\<And>a b. a \<in> set l \<Longrightarrow> b \<in> set l \<Longrightarrow> m a b = m' a b"
    and "\<And>a. a \<in> set l \<Longrightarrow> r a = r' a"
  shows "gauss_logpdf m r l = gauss_logpdf m' r' l"
  using assms
proof (induction l arbitrary: m m' r r')
  case Nil
  show ?case by simp
next
  case (Cons i l)
  have "gauss_logpdf (schur m i) (residual m r i) l = gauss_logpdf (schur m' i) (residual m' r' i) l"
  proof (rule Cons.IH)
    show "schur m i a b = schur m' i a b" if "a \<in> set l" "b \<in> set l" for a b
      using that Cons.prems(1) by (simp add: schur_def)
    show "residual m r i a = residual m' r' i a" if "a \<in> set l" for a
      using that Cons.prems by (simp add: residual_def)
  qed
  moreover have "m i i = m' i i" "r i = r' i" using Cons.prems by simp_all
  ultimately show ?case by simp
qed

lemma gauss_logpdf_map:
  "gauss_logpdf (\<lambda>a b. m (f a) (f b)) (\<lambda>a. r (f a)) l = gauss_logpdf m r (map f l)"
proof (induction l arbitrary: m r)
  case Nil
  show ?case by simp
next
  case (Cons a l)
  have m: "schur (\<lambda>a b. m (f a) (f b)) a = (\<lambda>x y. schur m (f a) (f x) (f y))"
    by (intro ext) (simp add: schur_def)
  have r: "residual (\<lambda>a b. m (f a) (f b)) (\<lambda>a. r (f a)) a = (\<lambda>x. residual m r (f a) (f x))"
    by (intro ext) (simp add: residual_def)
  show ?case
    by (simp add: m r Cons.IH[of "schur m (f a)" "residual m r (f a)"])
qed

lemma pd_on_pivot:
  assumes "finite S" and "i \<in> S" and "pd_on m S"
  shows "0 < m i i"
proof -
  define c :: "nat \<Rightarrow> real" where "c j = (if j = i then 1 else 0)" for j
  have "(\<Sum>j\<in>S. \<Sum>k\<in>S. c j * c k * m j k) = (\<Sum>j\<in>S. if j = i then (\<Sum>k\<in>S. c k * m i k) else 0)"
    by (intro sum.cong refl) (simp add: c_def)
  also have "\<dots> = (\<Sum>k\<in>S. c k * m i k)"
    using assms(1,2) by (simp add: sum.delta)
  also have "\<dots> = (\<Sum>k\<in>S. if k = i then m i i else 0)"
    by (intro sum.cong refl) (simp add: c_def)
  also have "\<dots> = m i i"
    using assms(1,2) by (simp add: sum.delta)
  finally have eq: "(\<Sum>j\<in>S. \<Sum>k\<in>S. c j * c k * m j k) = m i i" .
  have "\<exists>j\<in>S. c j \<noteq> 0" using assms(2) by (auto simp: c_def)
  with assms(3) have "0 < (\<Sum>j\<in>S. \<Sum>k\<in>S. c j * c k * m j k)"
    unfolding pd_on_def by blast
  then show ?thesis unfolding eq .
qed

lemma pd_on_schur:
  assumes fin: "finite S" and i: "i \<notin> S" and s: "symmetric_fn m" and pd: "pd_on m (insert i S)"
  shows "pd_on (schur m i) S"
  unfolding pd_on_def
proof (intro allI impI)
  fix c :: "nat \<Rightarrow> real"
  assume nz: "\<exists>j\<in>S. c j \<noteq> 0"
  define a where "a = m i i"
  have a: "0 < a" unfolding a_def using pd_on_pivot[OF _ _ pd, of i] fin by simp
  define t where "t = (\<Sum>j\<in>S. c j * m j i)"
  define Q where "Q = (\<Sum>j\<in>S. \<Sum>k\<in>S. c j * c k * m j k)"
  define c' where "c' = c(i := - t / a)"
  have c'S: "c' j = c j" if "j \<in> S" for j using that i by (auto simp: c'_def)
  have c'i: "c' i = - t / a" by (simp add: c'_def)
  have mij: "m i j = m j i" for j using s by (simp add: symmetric_fn_def)
  have row: "(\<Sum>k\<in>S. c' i * c' k * m i k) = c' i * t"
  proof -
    have "(\<Sum>k\<in>S. c' i * c' k * m i k) = (\<Sum>k\<in>S. c' i * (c k * m k i))"
      by (intro sum.cong refl) (simp add: c'S mij)
    then show ?thesis by (simp add: t_def sum_distrib_left)
  qed
  have col: "(\<Sum>j\<in>S. c' j * c' i * m j i) = c' i * t"
  proof -
    have "(\<Sum>j\<in>S. c' j * c' i * m j i) = (\<Sum>j\<in>S. c' i * (c j * m j i))"
      by (intro sum.cong refl) (simp add: c'S)
    then show ?thesis by (simp add: t_def sum_distrib_left)
  qed
  have inner: "(\<Sum>j\<in>S. \<Sum>k\<in>S. c' j * c' k * m j k) = Q"
    unfolding Q_def by (intro sum.cong refl) (simp add: c'S)
  have "(\<Sum>j\<in>insert i S. \<Sum>k\<in>insert i S. c' j * c' k * m j k)
      = c' i * c' i * a + c' i * t + (c' i * t + Q)"
    using fin i by (simp add: sum.distrib row col inner a_def)
  also have "\<dots> = Q - t * t / a"
    unfolding c'i using a by (simp add: field_simps)
  finally have big: "(\<Sum>j\<in>insert i S. \<Sum>k\<in>insert i S. c' j * c' k * m j k) = Q - t * t / a" .
  have "\<exists>j\<in>insert i S. c' j \<noteq> 0" using nz c'S by auto
  then have pos: "0 < Q - t * t / a"
    using pd unfolding pd_on_def big[symmetric] by blast
  have e: "c j * c k * schur m i j k = c j * c k * m j k - (c j * m j i) * (c k * m k i) / a"
    for j k
    unfolding schur_def mij[of k] a_def[symmetric] by (simp add: algebra_simps)
  have "(\<Sum>j\<in>S. \<Sum>k\<in>S. c j * c k * schur m i j k)
      = (\<Sum>j\<in>S. \<Sum>k\<in>S. (c j * c k * m j k - (c j * m j i) * (c k * m k i) / a))"
    by (simp only: e)
  also have "\<dots> = Q - (\<Sum>j\<in>S. \<Sum>k\<in>S. (c j * m j i) * (c k * m k i) / a)"
    unfolding Q_def by (simp only: sum_subtractf)
  also have "(\<Sum>j\<in>S. \<Sum>k\<in>S. (c j * m j i) * (c k * m k i) / a)
      = (\<Sum>j\<in>S. \<Sum>k\<in>S. (c j * m j i) * (c k * m k i)) / a"
    by (simp only: sum_divide_distrib)
  also have "(\<Sum>j\<in>S. \<Sum>k\<in>S. (c j * m j i) * (c k * m k i)) = t * t"
    by (simp add: t_def sum_product)
  finally show "0 < (\<Sum>j\<in>S. \<Sum>k\<in>S. c j * c k * schur m i j k)"
    using pos by simp
qed

lemma gauss_logpdf_defined:
  assumes "symmetric_fn m" and "distinct l" and "pd_on m (set l)"
  shows "\<exists>v. gauss_logpdf m r l = Some v"
  using assms
proof (induction l arbitrary: m r)
  case Nil
  show ?case by simp
next
  case (Cons i l)
  have piv: "0 < m i i"
    using pd_on_pivot[of "set (i # l)" i m] Cons.prems(3) by simp
  have "pd_on (schur m i) (set l)"
    using pd_on_schur[of "set l" i m] Cons.prems by simp
  from Cons.IH[OF symmetric_fn_schur[OF Cons.prems(1)] _ this, of "residual m r i"] Cons.prems(2)
  obtain v where "gauss_logpdf (schur m i) (residual m r i) l = Some v" by auto
  with piv show ?case by simp
qed

text \<open>
  For two indices the elimination gives the log-density of the bivariate normal with
  covariance \<open>[[a, c], [c, b]]\<close>, written with its determinant \<open>a b - c\<^sup>2\<close> and its adjugate.
\<close>

lemma gauss_logpdf_pair:
  assumes ij: "m j i = m i j" and A: "0 < m i i"
    and D: "0 < m i i * m j j - m i j * m i j"
  shows "gauss_logpdf m r [i, j] =
    Some (- (m j j * (r i)\<^sup>2 - 2 * m i j * r i * r j + m i i * (r j)\<^sup>2)
              / (2 * (m i i * m j j - m i j * m i j))
          - ln (m i i * m j j - m i j * m i j) / 2
          - ln (2 * pi))"
proof -
  define a b c u v where "a = m i i" and "b = m j j" and "c = m i j" and "u = r i" and "v = r j"
  have a: "0 < a" and d: "0 < a * b - c * c" using A D by (simp_all add: a_def b_def c_def)
  have p: "0 < b - c * c / a" using second_pivot_pos[OF a, of b c] d by simp
  have q: "u\<^sup>2 / a + (v - c * u / a)\<^sup>2 / (b - c * c / a)
      = (b * u\<^sup>2 - 2 * c * u * v + a * v\<^sup>2) / (a * b - c * c)"
    by (rule quadratic_two_pivots[OF a d])
  have l: "ln a + ln (b - c * c / a) = ln (a * b - c * c)"
    by (rule ln_two_pivots[OF a d])
  have "gauss_logpdf m r [i, j] =
      Some (0 - ((v - c * u / a)\<^sup>2 / (b - c * c / a) + ln (b - c * c / a) + ln (2 * pi)) / 2
              - (u\<^sup>2 / a + ln a + ln (2 * pi)) / 2)"
    using a p by (simp add: schur_def residual_def ij flip: a_def b_def c_def u_def v_def)
  also have "0 - ((v - c * u / a)\<^sup>2 / (b - c * c / a) + ln (b - c * c / a) + ln (2 * pi)) / 2
              - (u\<^sup>2 / a + ln a + ln (2 * pi)) / 2
      = - (u\<^sup>2 / a + (v - c * u / a)\<^sup>2 / (b - c * c / a)) / 2
        - (ln a + ln (b - c * c / a)) / 2 - ln (2 * pi)"
    by (simp add: field_simps)
  also have "\<dots> = - ((b * u\<^sup>2 - 2 * c * u * v + a * v\<^sup>2) / (a * b - c * c)) / 2
        - ln (a * b - c * c) / 2 - ln (2 * pi)"
    unfolding q l ..
  also have "- ((b * u\<^sup>2 - 2 * c * u * v + a * v\<^sup>2) / (a * b - c * c)) / 2
      = - (b * u\<^sup>2 - 2 * c * u * v + a * v\<^sup>2) / (2 * (a * b - c * c))"
    by (simp only: minus_divide_left divide_divide_eq_left mult.commute)
  finally show ?thesis unfolding a_def b_def c_def u_def v_def .
qed

section \<open>The likelihood of permuted data\<close>

lemma noisy_kernel_symmetric:
  "symmetric_fn (\<lambda>i j. evaluate k (xs ! i) (xs ! j) + (if i = j then d else 0))"
  unfolding symmetric_fn_def using evaluate_sym[of k] by auto

lemma noisy_kernel_quad_form:
  fixes c :: "nat \<Rightarrow> real"
  shows "(\<Sum>i<length xs. \<Sum>j<length xs.
            c i * c j * (evaluate k (xs ! i) (xs ! j) + (if i = j then d else 0)))
       = quad_form (evaluate k) xs (map c [0 ..< length xs]) + d * (\<Sum>i<length xs. (c i)\<^sup>2)"
proof -
  have "(\<Sum>j<length xs. c i * c j * (evaluate k (xs ! i) (xs ! j) + (if i = j then d else 0)))
      = (\<Sum>j<length xs. c i * c j * evaluate k (xs ! i) (xs ! j)) + d * (c i)\<^sup>2"
    if "i < length xs" for i
  proof -
    have "(\<Sum>j<length xs. c i * c j * (if i = j then d else 0))
        = (\<Sum>j<length xs. if j = i then c i * c i * d else 0)"
      by (intro sum.cong refl) auto
    also have "\<dots> = d * (c i)\<^sup>2"
      using that by (simp add: sum.delta power2_eq_square)
    finally show ?thesis
      by (simp add: distrib_left sum.distrib)
  qed
  then have "(\<Sum>i<length xs. \<Sum>j<length xs.
            c i * c j * (evaluate k (xs ! i) (xs ! j) + (if i = j then d else 0)))
      = (\<Sum>i<length xs. (\<Sum>j<length xs. c i * c j * evaluate k (xs ! i) (xs ! j)) + d * (c i)\<^sup>2)"
    by (intro sum.cong refl) simp
  also have "\<dots> = (\<Sum>i<length xs. \<Sum>j<length xs. c i * c j * evaluate k (xs ! i) (xs ! j))
      + d * (\<Sum>i<length xs. (c i)\<^sup>2)"
    by (simp add: sum.distrib sum_distrib_left)
  also have "(\<Sum>i<length xs. \<Sum>j<length xs. c i * c j * evaluate k (xs ! i) (xs ! j))
      = quad_form (evaluate k) xs (map c [0 ..< length xs])"
    unfolding quad_form_def by (intro sum.cong refl) simp
  finally show ?thesis .
qed

lemma noisy_kernel_pd:
  assumes "psd (evaluate k)" and "0 < d"
  shows "pd_on (\<lambda>i j. evaluate k (xs ! i) (xs ! j) + (if i = j then d else 0)) {..<length xs}"
  unfolding pd_on_def
proof (intro allI impI)
  fix c :: "nat \<Rightarrow> real"
  assume "\<exists>i\<in>{..<length xs}. c i \<noteq> 0"
  then obtain i where i: "i \<in> {..<length xs}" "c i \<noteq> 0" by blast
  have "0 < (\<Sum>i<length xs. (c i)\<^sup>2)"
    by (rule sum_pos2[of _ i]) (use i in simp_all)
  then have "0 < d * (\<Sum>i<length xs. (c i)\<^sup>2)" using assms(2) by simp
  moreover have "0 \<le> quad_form (evaluate k) xs (map c [0 ..< length xs])"
    using assms(1) by (simp add: psd_def)
  ultimately show "0 < (\<Sum>i<length xs. \<Sum>j<length xs.
            c i * c j * (evaluate k (xs ! i) (xs ! j) + (if i = j then d else 0)))"
    unfolding noisy_kernel_quad_form by linarith
qed

lemma log_probability_index:
  assumes "length y = length (X gp)"
  shows "log_probability gp y =
    Inr (case gauss_logpdf
                (\<lambda>i j. evaluate (kernel gp) (X gp ! i) (X gp ! j) + (if i = j then diag gp else 0))
                (\<lambda>i. y ! i - mean gp) [0 ..< length (X gp)] of
           None \<Rightarrow> NaN | Some v \<Rightarrow> Num v)"
proof -
  have "gauss_logpdf (\<lambda>i j. covariance gp ! i ! j) (\<lambda>i. y ! i - mean gp) [0 ..< length (X gp)]
      = gauss_logpdf
          (\<lambda>i j. evaluate (kernel gp) (X gp ! i) (X gp ! j) + (if i = j then diag gp else 0))
          (\<lambda>i. y ! i - mean gp) [0 ..< length (X gp)]"
    by (rule gauss_logpdf_cong) (simp_all add: covariance_entry)
  then show ?thesis using assms by (simp add: log_probability_def)
qed

lemma permutation_length:
  assumes "distinct p" and "set p = {..<n}"
  shows "length p = n"
  using distinct_card[OF assms(1)] assms(2) by simp

lemma gauss_logpdf_permuted_data:
  assumes d: "distinct p" and s: "set p = {..<length xs}"
  shows "gauss_logpdf
           (\<lambda>a b. evaluate k (permute p xs ! a) (permute p xs ! b) + (if a = b then dg else 0))
           (\<lambda>a. permute p y ! a - mu) [0 ..< length (permute p xs)]
       = gauss_logpdf
           (\<lambda>i j. evaluate k (xs ! i) (xs ! j) + (if i = j then dg else 0))
           (\<lambda>i. y ! i - mu) [0 ..< length xs]"
    (is "gauss_logpdf ?m' ?r' _ = gauss_logpdf ?m ?r _")
proof -
  have len: "length p = length xs" by (rule permutation_length[OF d s])
  have "gauss_logpdf ?m' ?r' [0 ..< length (permute p xs)]
      = gauss_logpdf (\<lambda>a b. ?m (p ! a) (p ! b)) (\<lambda>a. ?r (p ! a)) [0 ..< length p]"
  proof -
    have "gauss_logpdf ?m' ?r' [0 ..< length p]
        = gauss_logpdf (\<lambda>a b. ?m (p ! a) (p ! b)) (\<lambda>a. ?r (p ! a)) [0 ..< length p]"
    proof (rule gauss_logpdf_cong)
      fix a b assume "a \<in> set [0 ..< length p]" "b \<in> set [0 ..< length p]"
      then have ab: "a < length p" "b < length p" by simp_all
      then have "(p ! a = p ! b) = (a = b)" using d by (simp add: nth_eq_iff_index_eq)
      then show "?m' a b = ?m (p ! a) (p ! b)" using ab by (simp add: permute_def)
    next
      fix a assume "a \<in> set [0 ..< length p]"
      then show "?r' a = ?r (p ! a)" by (simp add: permute_def)
    qed
    then show ?thesis by (simp add: permute_def)
  qed
  also have "\<dots> = gauss_logpdf ?m ?r (map (\<lambda>a. p ! a) [0 ..< length p])"
    by (rule gauss_logpdf_map)
  also have "map (\<lambda>a. p ! a) [0 ..< length p] = p" by (rule map_nth)
  also have "gauss_logpdf ?m ?r p = gauss_logpdf ?m ?r [0 ..< length xs]"
    by (rule gauss_logpdf_permutation[OF noisy_kernel_symmetric d]) (simp_all add: s lessThan_atLeast0)
  finally show ?thesis .
qed

lemma build_gp_inputs:
  assumes "build_gp theta xs = Inr gp"
  shows "build_gp theta xs' = Inr (gp\<lparr>X := xs'\<rparr>)"
proof -
  have "\<not> length theta < 2" using assms by (auto simp: build_gp_def)
  then show ?thesis using assms by (auto simp: build_gp_def Let_def)
qed

text \<open>
  C6. For every vector \<open>theta\<close> of 13 reals, inputs and observations of the same length, and
  every permutation \<open>p\<close> of their positions, the negative log-likelihood of the permuted
  inputs and observations is that of the original ones, and it is a number: the training
  covariance is positive definite, so the factorisation does not fail.
\<close>

theorem neg_log_likelihood_permutation_invariant:
  assumes "length theta = 13" and "length y = length xs"
    and "distinct p" and "set p = {..<length xs}"
  shows "\<exists>v. neg_log_likelihood theta xs y = Inr (Num v)
           \<and> neg_log_likelihood theta (permute p xs) (permute p y) = Inr (Num v)"
proof -
  from build_gp_13[OF assms(1), of xs] obtain gp where
    b: "build_gp theta xs = Inr gp" and x: "X gp = xs"
    and dg: "diag gp = (exp (theta ! 11))\<^sup>2" and mu: "mean gp = theta ! 12"
    by simp
  define gp' where "gp' = gp\<lparr>X := permute p xs\<rparr>"
  have b': "build_gp theta (permute p xs) = Inr gp'"
    unfolding gp'_def by (rule build_gp_inputs[OF b])
  have x': "X gp' = permute p xs" and dg': "diag gp' = diag gp" and mu': "mean gp' = mean gp"
    and k: "kernel gp' = kernel gp"
    by (simp_all add: gp'_def)
  have len: "length p = length xs" by (rule permutation_length[OF assms(3,4)])
  have ly: "length (permute p y) = length (X gp')"
    by (simp add: permute_def x')
  let ?m = "\<lambda>i j. evaluate (kernel gp) (xs ! i) (xs ! j) + (if i = j then diag gp else 0)"
  let ?r = "\<lambda>i. y ! i - mean gp"
  have psd: "psd (evaluate (kernel gp))"
    by (intro pmult_psd admissible_pmult build_gp_admissible[OF b])
  have pos: "0 < diag gp" unfolding dg by simp
  have "pd_on ?m (set [0 ..< length xs])"
    using noisy_kernel_pd[OF psd pos, of xs] by (simp add: lessThan_atLeast0)
  from gauss_logpdf_defined[OF noisy_kernel_symmetric _ this, of ?r]
  obtain v where v: "gauss_logpdf ?m ?r [0 ..< length xs] = Some v" by auto
  have l: "log_probability gp y = Inr (Num v)"
    using log_probability_index[of y gp] assms(2) v by (simp add: x)
  have v': "gauss_logpdf
           (\<lambda>a b. evaluate (kernel gp) (permute p xs ! a) (permute p xs ! b)
                    + (if a = b then diag gp else 0))
           (\<lambda>a. permute p y ! a - mean gp) [0 ..< length (permute p xs)] = Some v"
    unfolding gauss_logpdf_permuted_data[OF assms(3,4)] by (rule v)
  have l': "log_probability gp' (permute p y) = Inr (Num v)"
    using log_probability_index[OF ly] unfolding x' k dg' mu' v' by simp
  show ?thesis
    using b b' l l' by (auto simp: neg_log_likelihood_def)
qed

theorem neg_log_likelihood_permutation_invariant_witness:
  "length (replicate 13 (0::real)) = 13
   \<and> length [1, 2 :: real] = length [0, 1 :: real]
   \<and> distinct [1, 0 :: nat]
   \<and> set [1, 0 :: nat] = {..<length [0, 1 :: real]}
   \<and> permute [1, 0] [0, 1 :: real] = [1, 0]
   \<and> permute [1, 0] [1, 2 :: real] = [2, 1]
   \<and> (\<exists>v. neg_log_likelihood (replicate 13 0) [0, 1] [1, 2] = Inr (Num v)
          \<and> neg_log_likelihood (replicate 13 0) [1, 0] [2, 1] = Inr (Num v))"
proof -
  have h1: "length (replicate 13 (0::real)) = 13" by simp
  have h2: "length [1, 2 :: real] = length [0, 1 :: real]" by simp
  have h3: "distinct [1, 0 :: nat]" by simp
  have h4: "set [1, 0 :: nat] = {..<length [0, 1 :: real]}" by auto
  have p1: "permute [1, 0] [0, 1 :: real] = [1, 0]" by (simp add: permute_def)
  have p2: "permute [1, 0] [1, 2 :: real] = [2, 1]" by (simp add: permute_def)
  from neg_log_likelihood_permutation_invariant[OF h1 h2 h3 h4]
  have "\<exists>v. neg_log_likelihood (replicate 13 0) [0, 1] [1, 2] = Inr (Num v)
          \<and> neg_log_likelihood (replicate 13 0) [1, 0] [2, 1] = Inr (Num v)"
    unfolding p1 p2 .
  with h1 h2 h3 h4 p1 p2 show ?thesis by blast
qed

section \<open>Solving with the factorisation\<close>

lemma gauss_solve_example:
  "map_option (\<lambda>w. map w [0, 1])
     (gauss_solve (\<lambda>i j. [[2, 1], [1, 2 :: real]] ! i ! j) (\<lambda>i. [4, 5] ! i) [0, 1])
   = Some [1, 2]"
  by (simp add: schur_def residual_def)

lemma gauss_solve_cong:
  assumes "\<And>a b. a \<in> set l \<Longrightarrow> b \<in> set l \<Longrightarrow> m a b = m' a b"
    and "\<And>a. a \<in> set l \<Longrightarrow> r a = r' a"
  shows "gauss_solve m r l = gauss_solve m' r' l"
  using assms
proof (induction l arbitrary: m m' r r')
  case Nil
  show ?case by simp
next
  case (Cons i l)
  have "gauss_solve (schur m i) (residual m r i) l = gauss_solve (schur m' i) (residual m' r' i) l"
  proof (rule Cons.IH)
    show "schur m i a b = schur m' i a b" if "a \<in> set l" "b \<in> set l" for a b
      using that Cons.prems(1) by (simp add: schur_def)
    show "residual m r i a = residual m' r' i a" if "a \<in> set l" for a
      using that Cons.prems by (simp add: residual_def)
  qed
  moreover have "m i i = m' i i" "r i = r' i" using Cons.prems by simp_all
  moreover have "(\<Sum>j\<leftarrow>l. m i j * w j) = (\<Sum>j\<leftarrow>l. m' i j * w j)" for w :: "nat \<Rightarrow> real"
    by (rule arg_cong[where f=sum_list], rule map_cong[OF refl]) (simp add: Cons.prems(1))
  ultimately show ?case by simp
qed

lemma gauss_solve_defined:
  assumes "symmetric_fn m" and "distinct l" and "pd_on m (set l)"
  shows "\<exists>w. gauss_solve m r l = Some w"
  using assms
proof (induction l arbitrary: m r)
  case Nil
  show ?case by simp
next
  case (Cons i l)
  have piv: "0 < m i i"
    using pd_on_pivot[of "set (i # l)" i m] Cons.prems(3) by simp
  have "pd_on (schur m i) (set l)"
    using pd_on_schur[of "set l" i m] Cons.prems by simp
  from Cons.IH[OF symmetric_fn_schur[OF Cons.prems(1)] _ this, of "residual m r i"] Cons.prems(2)
  obtain w where "gauss_solve (schur m i) (residual m r i) l = Some w" by auto
  with piv show ?case by simp
qed

lemma gauss_solve_correct:
  assumes "symmetric_fn m" and "distinct l" and "gauss_solve m r l = Some w" and "k \<in> set l"
  shows "(\<Sum>j\<in>set l. m k j * w j) = r k"
  using assms
proof (induction l arbitrary: m r w k)
  case Nil
  then show ?case by simp
next
  case (Cons i l)
  define a where "a = m i i"
  from Cons.prems(3) have a: "0 < a"
    by (auto simp: a_def split: if_splits)
  from Cons.prems(3) obtain w' where
    w': "gauss_solve (schur m i) (residual m r i) l = Some w'"
    and w: "w = w'(i := (r i - (\<Sum>j\<leftarrow>l. m i j * w' j)) / a)"
    by (auto simp: a_def split: if_splits)
  from Cons.prems(2) have il: "i \<notin> set l" and dl: "distinct l" by simp_all
  define s where "s = (\<Sum>j\<in>set l. m i j * w' j)"
  have sl: "(\<Sum>j\<leftarrow>l. m i j * w' j) = s"
    unfolding s_def using dl by (simp add: sum_list_distinct_conv_sum_set)
  have wi: "w i = (r i - s) / a" by (simp add: w sl)
  have wl: "w j = w' j" if "j \<in> set l" for j using that il by (auto simp: w)
  have rest: "(\<Sum>j\<in>set l. m x j * w j) = (\<Sum>j\<in>set l. m x j * w' j)" for x
    by (intro sum.cong refl) (simp add: wl)
  have all: "(\<Sum>j\<in>set (i # l). m x j * w j) = m x i * ((r i - s) / a) + (\<Sum>j\<in>set l. m x j * w' j)"
    for x
    using il by (simp add: rest wi)
  show ?case
  proof (cases "k = i")
    case True
    show ?thesis unfolding True all s_def[symmetric] a_def[symmetric] using a by simp
  next
    case False
    with Cons.prems(4) have kl: "k \<in> set l" by simp
    have ih: "(\<Sum>j\<in>set l. schur m i k j * w' j) = residual m r i k"
      by (rule Cons.IH[OF symmetric_fn_schur[OF Cons.prems(1)] dl w' kl])
    have "(\<Sum>j\<in>set l. schur m i k j * w' j)
        = (\<Sum>j\<in>set l. m k j * w' j) - (m k i / a) * s"
    proof -
      have "(\<Sum>j\<in>set l. schur m i k j * w' j)
          = (\<Sum>j\<in>set l. m k j * w' j - (m k i / a) * (m i j * w' j))"
        by (intro sum.cong refl) (simp add: schur_def a_def algebra_simps)
      also have "\<dots> = (\<Sum>j\<in>set l. m k j * w' j) - (\<Sum>j\<in>set l. (m k i / a) * (m i j * w' j))"
        by (simp only: sum_subtractf)
      also have "(\<Sum>j\<in>set l. (m k i / a) * (m i j * w' j)) = (m k i / a) * s"
        unfolding s_def by (simp only: sum_distrib_left)
      finally show ?thesis .
    qed
    with ih have "(\<Sum>j\<in>set l. m k j * w' j) = r k - m k i * r i / a + (m k i / a) * s"
      by (simp add: residual_def a_def)
    then show ?thesis unfolding all using a by (simp add: field_simps)
  qed
qed

section \<open>Strict positive definiteness on distinct inputs\<close>

text \<open>
  The quadratic form of \<open>exp(2 g x y)\<close> is the series of the non-negative terms
  \<open>(2 g)\<^sup>n / n! * (\<Sum>i. d\<^sub>i x\<^sub>i\<^sup>n)\<^sup>2\<close>. If it vanishes, every moment \<open>\<Sum>i. d\<^sub>i x\<^sub>i\<^sup>n\<close> vanishes,
  and for distinct points this forces \<open>d = 0\<close>: apply the moments to the polynomial that
  vanishes at every point but one.
\<close>

lemma vanishing_moments:
  fixes c :: "nat \<Rightarrow> real" and xs :: "real list"
  assumes d: "distinct xs"
    and mom: "\<And>n. (\<Sum>i<length xs. c i * (xs ! i) ^ n) = 0"
    and k: "k < length xs"
  shows "c k = 0"
proof -
  define V where "V f = (\<Sum>i<length xs. c i * f (xs ! i))" for f :: "real \<Rightarrow> real"
  have V_lin: "V (\<lambda>x. f x - a * g x) = V f - a * V g" for f g a
    by (simp add: V_def algebra_simps sum_subtractf sum_distrib_left)
  have step: "V (\<lambda>x. x ^ n * prod_list (map (\<lambda>a. x - a) J)) = 0" for n J
  proof (induction J arbitrary: n)
    case Nil
    show ?case using mom[of n] by (simp add: V_def)
  next
    case (Cons a J)
    have "(\<lambda>x. x ^ n * prod_list (map (\<lambda>a. x - a) (a # J)))
        = (\<lambda>x. x ^ Suc n * prod_list (map (\<lambda>a. x - a) J)
                - a * (x ^ n * prod_list (map (\<lambda>a. x - a) J)))"
      by (intro ext) (simp add: algebra_simps)
    then show ?case by (simp only: V_lin Cons.IH)
  qed
  define J where "J = remove1 (xs ! k) xs"
  define P where "P x = prod_list (map (\<lambda>a. x - a) J)" for x
  have setJ: "set J = set xs - {xs ! k}" unfolding J_def using d by (rule set_remove1_eq)
  have zero: "P (xs ! i) = 0" if "i < length xs" "i \<noteq> k" for i
  proof -
    have "xs ! i \<noteq> xs ! k" using that k d by (simp add: nth_eq_iff_index_eq)
    then have "xs ! i \<in> set J" using that(1) by (simp add: setJ)
    then have "0 \<in> set (map (\<lambda>a. xs ! i - a) J)" by force
    then show ?thesis unfolding P_def by (simp only: prod_list_zero_iff)
  qed
  have nz: "P (xs ! k) \<noteq> 0"
  proof -
    have "0 \<notin> set (map (\<lambda>a. xs ! k - a) J)" by (auto simp: setJ)
    then show ?thesis unfolding P_def by (simp only: prod_list_zero_iff) simp
  qed
  have "V P = (\<Sum>i<length xs. if i = k then c k * P (xs ! k) else 0)"
    unfolding V_def by (intro sum.cong refl) (auto simp: zero)
  also have "\<dots> = c k * P (xs ! k)" using k by (simp add: sum.delta)
  finally have "V P = c k * P (xs ! k)" .
  moreover have "V P = 0"
  proof -
    have "P = (\<lambda>x. x ^ 0 * prod_list (map (\<lambda>a. x - a) J))"
      by (intro ext) (simp add: P_def)
    then show ?thesis by (simp only: step)
  qed
  ultimately show ?thesis using nz by simp
qed

lemma exp_quad_form_sums:
  fixes d x :: "nat \<Rightarrow> real"
  shows "(\<lambda>n. (g ^ n / fact n) * (\<Sum>i<N. d i * x i ^ n)\<^sup>2)
           sums (\<Sum>i<N. \<Sum>j<N. d i * d j * exp (g * (x i * x j)))"
proof -
  have "(\<lambda>n. d i * d j * ((g * (x i * x j)) ^ n / fact n)) sums (d i * d j * exp (g * (x i * x j)))"
    for i j
    using exp_converges[of "g * (x i * x j)"]
    by (intro sums_mult) (simp add: scaleR_conv_of_real divide_inverse mult.commute)
  then have "(\<lambda>n. \<Sum>i<N. \<Sum>j<N. d i * d j * ((g * (x i * x j)) ^ n / fact n))
      sums (\<Sum>i<N. \<Sum>j<N. d i * d j * exp (g * (x i * x j)))"
    by (intro sums_sum)
  moreover have "(\<Sum>i<N. \<Sum>j<N. d i * d j * ((g * (x i * x j)) ^ n / fact n))
      = (g ^ n / fact n) * (\<Sum>i<N. d i * x i ^ n)\<^sup>2" for n
  proof -
    have "(g ^ n / fact n) * (\<Sum>i<N. d i * x i ^ n)\<^sup>2
        = (g ^ n / fact n) * (\<Sum>i<N. \<Sum>j<N. (d i * x i ^ n) * (d j * x j ^ n))"
      by (simp add: power2_eq_square sum_product)
    also have "\<dots> = (\<Sum>i<N. \<Sum>j<N. (g ^ n / fact n) * ((d i * x i ^ n) * (d j * x j ^ n)))"
      by (simp only: sum_distrib_left)
    also have "\<dots> = (\<Sum>i<N. \<Sum>j<N. d i * d j * ((g * (x i * x j)) ^ n / fact n))"
      by (intro sum.cong refl) (simp add: power_mult_distrib)
    finally show ?thesis by simp
  qed
  ultimately show ?thesis by simp
qed

lemma spd_gauss:
  assumes g: "0 < g"
  shows "spd (\<lambda>x y. exp (- g * (x - y)\<^sup>2))"
  unfolding spd_def
proof (intro allI impI, elim conjE exE)
  fix xs c :: "real list" and i0
  assume dist: "distinct xs" and len: "length c = length xs"
    and i0: "i0 < length xs" and ci0: "c ! i0 \<noteq> 0"
  define N where "N = length xs"
  define d where "d i = c ! i * exp (- g * (xs ! i)\<^sup>2)" for i
  define T where "T n = ((2 * g) ^ n / fact n) * (\<Sum>i<N. d i * (xs ! i) ^ n)\<^sup>2" for n
  define Q where "Q = quad_form (\<lambda>x y. exp (- g * (x - y)\<^sup>2)) xs c"
  have "Q = (\<Sum>i<N. \<Sum>j<N. d i * d j * exp ((2 * g) * (xs ! i * xs ! j)))"
    unfolding Q_def quad_form_def N_def
  proof (intro sum.cong refl)
    fix i j
    have "- g * (xs ! i - xs ! j)\<^sup>2
        = - g * (xs ! i)\<^sup>2 + - g * (xs ! j)\<^sup>2 + (2 * g) * (xs ! i * xs ! j)"
      by (simp add: power2_diff algebra_simps)
    then show "c ! i * c ! j * exp (- g * (xs ! i - xs ! j)\<^sup>2)
        = d i * d j * exp ((2 * g) * (xs ! i * xs ! j))"
      by (simp only: exp_add d_def) simp
  qed
  moreover have "(\<lambda>n. T n) sums (\<Sum>i<N. \<Sum>j<N. d i * d j * exp ((2 * g) * (xs ! i * xs ! j)))"
    unfolding T_def by (rule exp_quad_form_sums)
  ultimately have sums: "T sums Q" by simp
  have nonneg: "0 \<le> T n" for n using g by (simp add: T_def)
  have summ: "summable T" and Qs: "suminf T = Q"
    using sums by (simp_all add: sums_iff)
  have "0 \<le> Q" unfolding Qs[symmetric] by (rule suminf_nonneg[OF summ nonneg])
  moreover have "Q \<noteq> 0"
  proof
    assume "Q = 0"
    then have "T n = 0" for n
      using suminf_eq_zero_iff[OF summ nonneg] Qs by simp
    then have "(\<Sum>i<length xs. d i * (xs ! i) ^ n) = 0" for n
      using g by (simp add: T_def N_def)
    from vanishing_moments[OF dist this i0] have "d i0 = 0" .
    then show False using ci0 by (simp add: d_def)
  qed
  ultimately show "0 < quad_form (\<lambda>x y. exp (- g * (x - y)\<^sup>2)) xs c"
    unfolding Q_def by simp
qed

lemma spd_add_psd:
  assumes "spd k" and "psd k'"
  shows "spd (\<lambda>x y. k x y + k' x y)"
  using assms unfolding spd_def psd_def quad_form_add
  by (meson add_pos_nonneg)

lemma spd_scale:
  assumes "0 < a" and "spd k"
  shows "spd (\<lambda>x y. a * k x y)"
  using assms unfolding spd_def quad_form_scale by simp

section \<open>The noiseless posterior mean\<close>

lemma build_gp_kernel_shape:
  assumes "build_gp theta xs = Inr gp"
  shows "\<exists>a l k2 k3 k4. kernel gp = Sum (Sum (Sum (Product (Constant a) (ExpSquared l)) k2) k3) k4
           \<and> 0 < a \<and> 0 < l \<and> admissible k2 \<and> admissible k3 \<and> admissible k4"
proof -
  have len: "\<not> length theta < 2" using assms by (auto simp: build_gp_def)
  then have ne: "butlast theta \<noteq> []" by (cases theta) auto
  define th where "th = map exp (butlast theta)"
  have pos: "0 < jnp_index th i" for i unfolding th_def by (rule jnp_index_exp_pos[OF ne])
  have k: "kernel gp =
      Sum (Sum (Sum
        (Product (Constant ((jnp_index th 0)\<^sup>2)) (ExpSquared (jnp_index th 1)))
        (Product (Product (Constant ((jnp_index th 2)\<^sup>2)) (ExpSquared (jnp_index th 3)))
                 (ExpSineSquared (jnp_index th 4) (jnp_index th 5))))
        (Product (Constant ((jnp_index th 6)\<^sup>2))
                 (RationalQuadratic (jnp_index th 7) (jnp_index th 8))))
        (Product (Constant ((jnp_index th 9)\<^sup>2)) (ExpSquared (jnp_index th 10)))"
    using assms len by (auto simp: build_gp_def Let_def th_def)
  have nz: "jnp_index th i \<noteq> 0" for i using pos[of i] by simp
  have a: "0 < (jnp_index th 0)\<^sup>2" using pos[of 0] by simp
  have k2: "admissible (Product (Product (Constant ((jnp_index th 2)\<^sup>2)) (ExpSquared (jnp_index th 3)))
                 (ExpSineSquared (jnp_index th 4) (jnp_index th 5)))"
    using pos[of 3] pos[of 4] pos[of 5] by simp
  have k3: "admissible (Product (Constant ((jnp_index th 6)\<^sup>2))
                 (RationalQuadratic (jnp_index th 7) (jnp_index th 8)))"
    using pos[of 7] pos[of 8] by simp
  have k4: "admissible (Product (Constant ((jnp_index th 9)\<^sup>2)) (ExpSquared (jnp_index th 10)))"
    using pos[of 10] by simp
  from k a pos[of 1] k2 k3 k4 show ?thesis by blast
qed

lemma spd_scaled_exp_squared:
  assumes "0 < a" and "0 < l"
  shows "spd (evaluate (Product (Constant a) (ExpSquared l)))"
proof -
  have "spd (\<lambda>x y. a * exp (- (1 / (2 * l\<^sup>2)) * (x - y)\<^sup>2))"
    using assms by (intro spd_scale spd_gauss) simp_all
  moreover have "evaluate (Product (Constant a) (ExpSquared l))
      = (\<lambda>x y. a * exp (- (1 / (2 * l\<^sup>2)) * (x - y)\<^sup>2))"
    by (intro ext) simp
  ultimately show ?thesis by simp
qed

lemma spd_Sum:
  assumes "spd (evaluate k)" and "admissible k'"
  shows "spd (evaluate (Sum k k'))"
proof -
  have "psd (evaluate k')" using assms(2) by (intro pmult_psd admissible_pmult)
  with assms(1) have "spd (\<lambda>x y. evaluate k x y + evaluate k' x y)" by (rule spd_add_psd)
  moreover have "evaluate (Sum k k') = (\<lambda>x y. evaluate k x y + evaluate k' x y)"
    by (intro ext) simp
  ultimately show ?thesis by simp
qed

lemma build_gp_spd:
  assumes "build_gp theta xs = Inr gp"
  shows "spd (evaluate (kernel gp))"
proof -
  from build_gp_kernel_shape[OF assms] obtain a l k2 k3 k4 where
    k: "kernel gp = Sum (Sum (Sum (Product (Constant a) (ExpSquared l)) k2) k3) k4"
    and p: "0 < a" "0 < l" "admissible k2" "admissible k3" "admissible k4"
    by blast
  show ?thesis unfolding k
    by (intro spd_Sum spd_scaled_exp_squared p)
qed

lemma spd_pd_on:
  assumes "spd k" and "distinct xs"
  shows "pd_on (\<lambda>i j. k (xs ! i) (xs ! j)) {..<length xs}"
  unfolding pd_on_def
proof (intro allI impI)
  fix c :: "nat \<Rightarrow> real"
  assume "\<exists>i\<in>{..<length xs}. c i \<noteq> 0"
  then have "\<exists>i<length xs. map c [0 ..< length xs] ! i \<noteq> 0" by auto
  then have "0 < quad_form k xs (map c [0 ..< length xs])"
    using assms unfolding spd_def by simp
  also have "quad_form k xs (map c [0 ..< length xs])
      = (\<Sum>i<length xs. \<Sum>j<length xs. c i * c j * k (xs ! i) (xs ! j))"
    unfolding quad_form_def by (intro sum.cong refl) simp
  finally show "0 < (\<Sum>i\<in>{..<length xs}. \<Sum>j\<in>{..<length xs}. c i * c j * k (xs ! i) (xs ! j))" .
qed

text \<open>
  In exact arithmetic: for a model that \<open>build_gp\<close> returns, with its noise set to zero,
  pairwise distinct training inputs and observations of the same length, the
  factorisation succeeds and the posterior mean at the training inputs is \<open>y\<close>.
\<close>

lemma exact_posterior_mean_interpolates:
  assumes b: "build_gp theta xs = Inr gp" and ly: "length y = length xs" and d: "distinct xs"
  shows "condition_mean (gp\<lparr>diag := 0\<rparr>) y xs = Inr (map Num y)"
proof -
  define n where "n = length xs"
  define k where "k = kernel gp"
  define mu where "mu = mean gp"
  define gp0 where "gp0 = gp\<lparr>diag := 0\<rparr>"
  have x: "X gp = xs"
    using b by (auto simp: build_gp_def Let_def split: if_splits)
  have x0: "X gp0 = xs" and k0: "kernel gp0 = k" and mu0: "mean gp0 = mu" and d0: "diag gp0 = 0"
    by (simp_all add: gp0_def x k_def mu_def)
  let ?m = "\<lambda>i j. evaluate k (xs ! i) (xs ! j)"
  let ?r = "\<lambda>i. y ! i - mu"
  have sym: "symmetric_fn ?m"
    unfolding symmetric_fn_def using evaluate_sym[of k] by auto
  have pd: "pd_on ?m (set [0 ..< n])"
    using spd_pd_on[OF build_gp_spd[OF b] d] by (simp add: n_def k_def lessThan_atLeast0)
  from gauss_solve_defined[OF sym _ pd, of ?r] obtain w where
    w: "gauss_solve ?m ?r [0 ..< n] = Some w" by auto
  have "gauss_solve (\<lambda>i j. covariance gp0 ! i ! j) (\<lambda>i. y ! i - mean gp0) [0 ..< length (X gp0)]
      = gauss_solve ?m ?r [0 ..< n]"
    unfolding x0 mu0 n_def
    by (rule gauss_solve_cong) (simp_all add: covariance_entry x0 k0 d0)
  then have c: "condition_mean gp0 y xs
      = Inr (map (\<lambda>x. Num (mu + (\<Sum>j\<leftarrow>[0 ..< n]. evaluate k x (xs ! j) * w j))) xs)"
    using ly w by (simp add: condition_mean_def x0 k0 mu0 n_def)
  have "mu + (\<Sum>j\<leftarrow>[0 ..< n]. evaluate k (xs ! a) (xs ! j) * w j) = y ! a" if "a < n" for a
  proof -
    have "(\<Sum>j\<in>set [0 ..< n]. ?m a j * w j) = ?r a"
      by (rule gauss_solve_correct[OF sym _ w]) (use that in simp_all)
    then have "(\<Sum>j\<leftarrow>[0 ..< n]. evaluate k (xs ! a) (xs ! j) * w j) = y ! a - mu"
      by (simp add: sum_list_distinct_conv_sum_set)
    then show ?thesis by simp
  qed
  then have "map (\<lambda>x. Num (mu + (\<Sum>j\<leftarrow>[0 ..< n]. evaluate k x (xs ! j) * w j))) xs = map Num y"
    using ly by (intro nth_equalityI) (simp_all add: n_def)
  with c show ?thesis by (simp add: gp0_def)
qed

section \<open>The range of double precision\<close>

lemma tiny64_pos: "0 < tiny64" and tiny64_less_1: "tiny64 < 1" and huge64_gt_1: "1 < huge64"
  by (simp_all add: tiny64_def huge64_def)

lemma round64_0: "round64 0 = Num 0"
  using tiny64_pos by (simp add: round64_def)

lemma round64_1: "round64 1 = Num 1"
  using tiny64_less_1 huge64_gt_1 by (simp add: round64_def)

lemma round64_representable: "representable v \<Longrightarrow> round64 v = Num v"
  using tiny64_pos by (auto simp: representable_def round64_def)

lemma exp64_0: "exp64 0 = Num 1"
  by (simp add: exp64_def round64_1)

lemma square64_1: "square64 (Num 1) = Num 1"
  by (simp add: round64_1)

lemma two_le_exp: "2 \<le> exp (93 / 125 :: real)"
proof -
  have "(2::real) \<le> 1 + 93 / 125 + (93 / 125)\<^sup>2 / 2" by (simp add: power2_eq_square)
  also have "\<dots> \<le> exp (93 / 125)" by (rule exp_lower_Taylor_quadratic) simp
  finally show ?thesis .
qed

lemma exp_minus_800: "exp (- 800 :: real) \<le> tiny64"
proof -
  have "(2::real) ^ 1075 \<le> exp (93 / 125) ^ 1075"
    by (rule power_mono[OF two_le_exp]) simp
  also have "\<dots> = exp (of_nat 1075 * (93 / 125))"
    by (simp only: exp_of_nat_mult)
  also have "\<dots> \<le> exp 800" by simp
  finally have "(2::real) ^ 1075 \<le> exp 800" .
  then have "1 / exp 800 \<le> 1 / (2::real) ^ 1075"
    by (intro divide_left_mono) simp_all
  then show ?thesis by (simp add: tiny64_def exp_minus field_simps)
qed

lemma exp64_minus_800: "exp64 (- 800) = Num 0"
  using exp_minus_800 by (simp add: exp64_def round64_def)

lemma square64_exp64_minus_400: "square64 (exp64 (- 400)) = Num 0"
proof -
  have sq: "exp (- 400 :: real) * exp (- 400) = exp (- 800)" by (simp flip: exp_add)
  have lt: "exp (- 400 :: real) < huge64"
    using huge64_gt_1 by (simp add: less_trans[of _ 1])
  show ?thesis
  proof (cases "exp (- 400 :: real) \<le> tiny64")
    case True
    then have "exp64 (- 400) = Num 0" by (simp add: exp64_def round64_def)
    then show ?thesis by (simp add: round64_0)
  next
    case False
    moreover have "\<not> exp (- 400 :: real) \<le> - huge64"
      using exp_gt_zero[of "- 400 :: real"] huge64_gt_1 by linarith
    ultimately have "exp64 (- 400) = Num (exp (- 400))"
      using lt by (simp add: exp64_def round64_def)
    then show ?thesis using exp_minus_800 by (simp add: sq round64_def)
  qed
qed

lemma exp64_pos_iff: "flt_less (Num 0) (exp64 x) \<longleftrightarrow> tiny64 < exp x"
  using tiny64_pos huge64_gt_1 by (auto simp: exp64_def round64_def)

lemma square_le_tiny:
  assumes "0 \<le> v" and "v \<le> tiny64"
  shows "v * v \<le> tiny64"
proof -
  have "v * v \<le> tiny64 * 1"
    using assms tiny64_less_1 by (intro mult_mono) simp_all
  then show ?thesis by simp
qed

lemma square_gt_tiny:
  assumes "huge64 \<le> v"
  shows "tiny64 < v * v"
proof -
  have "1 < v" using assms huge64_gt_1 by simp
  then have "1 * 1 < v * v" by (intro mult_strict_mono) simp_all
  with tiny64_less_1 show ?thesis by simp
qed

lemma square64_exp64:
  "square64 (exp64 x) =
     (if (exp x)\<^sup>2 \<le> tiny64 then Num 0
      else if huge64 \<le> exp x \<or> huge64 \<le> (exp x)\<^sup>2 then PInf
      else Num ((exp x)\<^sup>2))"
proof -
  consider "exp x \<le> tiny64" | "huge64 \<le> exp x" | "tiny64 < exp x" "exp x < huge64"
    by linarith
  then show ?thesis
  proof cases
    case 1
    then have "exp64 x = Num 0" by (simp add: exp64_def round64_def)
    moreover have "(exp x)\<^sup>2 \<le> tiny64"
      using square_le_tiny[OF _ 1] by (simp add: power2_eq_square)
    ultimately show ?thesis by (simp add: round64_0)
  next
    case 2
    then have "exp64 x = PInf" using tiny64_less_1 huge64_gt_1 by (simp add: exp64_def round64_def)
    moreover have "tiny64 < (exp x)\<^sup>2"
      using square_gt_tiny[OF 2] by (simp add: power2_eq_square)
    ultimately show ?thesis using 2 by simp
  next
    case 3
    have "\<not> exp x \<le> - huge64" using exp_gt_zero[of x] huge64_gt_1 by linarith
    with 3 have "exp64 x = Num (exp x)" by (simp add: exp64_def round64_def)
    moreover have "\<not> (exp x)\<^sup>2 \<le> - huge64"
      using huge64_gt_1 zero_le_power2[of "exp x"] by linarith
    ultimately show ?thesis using 3 by (simp add: round64_def power2_eq_square)
  qed
qed

lemma square64_exp64_pos_iff:
  "flt_less (Num 0) (square64 (exp64 x)) \<longleftrightarrow> tiny64 < (exp x)\<^sup>2"
  using tiny64_pos by (auto simp: square64_exp64)

lemma square64_exp64_zero_iff:
  "square64 (exp64 x) = Num 0 \<longleftrightarrow> (exp x)\<^sup>2 \<le> tiny64"
  using tiny64_pos by (auto simp: square64_exp64)

lemma square64_exp64_representable:
  assumes "representable ((exp x)\<^sup>2)"
  shows "square64 (exp64 x) = Num ((exp x)\<^sup>2)" and "exp64 x = Num (exp x)"
proof -
  have r: "tiny64 < (exp x)\<^sup>2" "(exp x)\<^sup>2 < huge64" using assms by (simp_all add: representable_def)
  have hi: "exp x < huge64"
  proof (rule ccontr)
    assume "\<not> exp x < huge64"
    then have h: "huge64 \<le> exp x" by simp
    then have "1 \<le> exp x" using huge64_gt_1 by linarith
    then have "exp x * 1 \<le> exp x * exp x" by (intro mult_left_mono) simp_all
    with h r(2) show False by (simp add: power2_eq_square)
  qed
  have lo: "tiny64 < exp x"
  proof (rule ccontr)
    assume "\<not> tiny64 < exp x"
    then have "exp x \<le> tiny64" by simp
    from square_le_tiny[OF _ this] r(1) show False by (simp add: power2_eq_square)
  qed
  show "square64 (exp64 x) = Num ((exp x)\<^sup>2)"
    using r hi by (simp add: square64_exp64)
  have "\<not> exp x \<le> - huge64" using exp_gt_zero[of x] huge64_gt_1 by linarith
  then show "exp64 x = Num (exp x)"
    using lo hi by (simp add: exp64_def round64_def)
qed

lemma exp64_representable: "representable (exp x) \<Longrightarrow> exp64 x = Num (exp x)"
  by (simp add: exp64_def round64_representable)

lemma exp_2_less_8: "exp (2 :: real) < 8"
proof -
  have "exp (1 / 16 :: real) \<le> 1 + 1 / 16 + (1 / 16)\<^sup>2" by (rule exp_bound) simp_all
  then have "exp (1 / 16 :: real) \<le> 273 / 256" by (simp add: power2_eq_square)
  then have "exp (1 / 16 :: real) ^ 32 \<le> (273 / 256) ^ 32" by (rule power_mono) simp
  also have "exp (1 / 16 :: real) ^ 32 = exp 2" by (simp flip: exp_of_nat_mult)
  also have "(273 / 256 :: real) ^ 32 < 8" by (simp add: power_divide)
  finally show ?thesis .
qed

lemma exp_680: "exp (680 :: real) < 2 ^ 1020"
proof -
  have "exp (2 :: real) ^ 340 < 8 ^ 340"
    by (rule power_strict_mono[OF exp_2_less_8]) simp_all
  also have "exp (2 :: real) ^ 340 = exp 680" by (simp flip: exp_of_nat_mult)
  also have "(8 :: real) ^ 340 = 2 ^ 1020" by simp
  finally show ?thesis .
qed

lemma representable_exp:
  assumes "\<bar>s\<bar> \<le> (680 :: real)"
  shows "representable (exp s)"
proof -
  have "exp s \<le> exp 680" using assms by simp
  also have "\<dots> < 2 ^ 1020" by (rule exp_680)
  also have "(2 :: real) ^ 1020 \<le> huge64" by (simp add: huge64_def)
  finally have up: "exp s < huge64" .
  define c :: real where "c = 2 ^ 1075"
  have c: "0 < c" by (simp add: c_def)
  have "exp (- s) \<le> exp 680" using assms by simp
  also have "\<dots> < c" using exp_680 by (simp add: c_def)
  finally have "exp (- s) < c" .
  then have "exp s * exp (- s) < exp s * c" by simp
  then have "1 < exp s * c" by (simp flip: exp_add)
  then have "1 / c < exp s" using c by (simp add: pos_divide_less_eq)
  then have "tiny64 < exp s" by (simp add: tiny64_def c_def)
  with up show ?thesis by (simp add: representable_def)
qed

text \<open>
  A vector whose first twelve entries lie between -340 and 340 is in range.
\<close>

lemma in_range64_bounded:
  assumes "length theta = 13" and "\<And>i. i < 12 \<Longrightarrow> \<bar>theta ! i\<bar> \<le> 340"
  shows "in_range64 theta"
proof -
  have e: "representable (exp (theta ! i))" if "i < 12" for i
    using assms(2)[OF that] by (intro representable_exp) simp
  have s: "representable ((exp (theta ! i))\<^sup>2)" if "i < 12" for i
  proof -
    have "(exp (theta ! i))\<^sup>2 = exp (2 * theta ! i)"
      by (simp add: power2_eq_square flip: exp_add)
    moreover have "representable (exp (2 * theta ! i))"
      using assms(2)[OF that] by (intro representable_exp) simp
    ultimately show ?thesis by simp
  qed
  show ?thesis
    unfolding in_range64_def kernel_in_range64_def
    by (simp add: e s)
qed

section \<open>The model that \<open>build_gp\<close> returns in double precision\<close>

lemma jnp_index64_exp:
  "length theta = 13 \<Longrightarrow> i < 12 \<Longrightarrow> jnp_index64 (map exp64 (butlast theta)) i = exp64 (theta ! i)"
  by (simp add: jnp_index64_def nth_butlast)

lemma build_gp64_13:
  assumes "length theta = 13"
  shows "build_gp64 theta xs = Inr
    \<lparr>kernel64 =
       Sum64 (Sum64 (Sum64
         (Product64 (Constant64 (square64 (exp64 (theta ! 0)))) (ExpSquared64 (exp64 (theta ! 1))))
         (Product64 (Product64 (Constant64 (square64 (exp64 (theta ! 2))))
                               (ExpSquared64 (exp64 (theta ! 3))))
                    (ExpSineSquared64 (exp64 (theta ! 4)) (exp64 (theta ! 5)))))
         (Product64 (Constant64 (square64 (exp64 (theta ! 6))))
                    (RationalQuadratic64 (exp64 (theta ! 7)) (exp64 (theta ! 8)))))
         (Product64 (Constant64 (square64 (exp64 (theta ! 9)))) (ExpSquared64 (exp64 (theta ! 10)))),
     X64 = xs, diag64 = square64 (exp64 (theta ! 11)), mean64 = theta ! 12\<rparr>"
proof -
  have "theta \<noteq> []" using assms by auto
  then have "last theta = theta ! 12"
    using assms by (simp add: last_conv_nth)
  then show ?thesis
    using assms by (simp add: build_gp64_def Let_def jnp_index64_exp)
qed


lemma exp64_not_negative: "exp64 x \<noteq> NaN \<and> \<not> flt_less (exp64 x) (Num 0)"
  using tiny64_pos huge64_gt_1 by (auto simp: exp64_def round64_def)

lemma square64_exp64_not_negative:
  "square64 (exp64 x) \<noteq> NaN \<and> \<not> flt_less (square64 (exp64 x)) (Num 0)"
  by (simp add: square64_exp64)



section \<open>Kernels whose scalars are in range\<close>

lemma evaluate64_exact:
  "admissible k \<Longrightarrow> evaluate64 (exact k) x x' = Num (evaluate k x x')"
proof (induction k)
  case (RationalQuadratic a l)
  then have p: "0 < a" "0 < l" by simp_all
  have "0 \<le> (\<bar>x - x'\<bar>)\<^sup>2 / (2 * a * l\<^sup>2)" using p by simp
  then have "0 < 1 + (\<bar>x - x'\<bar>)\<^sup>2 / (2 * a * l\<^sup>2)" by linarith
  then show ?case using p by (simp add: power2_eq_square)
qed (simp_all add: power2_eq_square)

lemma gram64_exact:
  "admissible k \<Longrightarrow> gram64 (exact k) xs xs' = map (map Num) (gram k xs xs')"
  by (simp add: gram64_def gram_def evaluate64_exact)

lemma all_finite_Num: "all_finite (map (map Num) m)"
  by (simp add: all_finite_def list_all_iff)

lemma num_of_Num: "map (map num_of) (map (map Num) m) = m"
proof -
  have "num_of \<circ> Num = id" by (intro ext) simp
  then show ?thesis by (simp add: map_idI)
qed

lemma gram64_symmetric:
  assumes "admissible k"
  shows "symmetric64 (gram64 (exact k) xs xs)"
  unfolding symmetric64_def gram64_def
  using evaluate_sym[of k] by (simp add: evaluate64_exact[OF assms])

lemma gram64_psd:
  assumes "admissible k"
  shows "positive_semidefinite64 (gram64 (exact k) xs xs)"
  unfolding positive_semidefinite64_def gram64_exact[OF assms] num_of_Num
  using admissible_gram_psd[OF assms] by (simp add: all_finite_Num)

lemma build_gp64_exact:
  assumes "length theta = 13" and "kernel_in_range64 theta" and "build_gp theta xs = Inr gp"
  shows "build_gp64 theta xs = Inr
    \<lparr>kernel64 = exact (kernel gp), X64 = xs, diag64 = square64 (exp64 (theta ! 11)),
     mean64 = mean gp\<rparr>"
proof -
  have r: "representable (exp (theta ! 1))" "representable (exp (theta ! 3))"
    "representable (exp (theta ! 4))" "representable (exp (theta ! 5))"
    "representable (exp (theta ! 7))" "representable (exp (theta ! 8))"
    "representable (exp (theta ! 10))"
    "representable ((exp (theta ! 0))\<^sup>2)" "representable ((exp (theta ! 2))\<^sup>2)"
    "representable ((exp (theta ! 6))\<^sup>2)" "representable ((exp (theta ! 9))\<^sup>2)"
    using assms(2) by (simp_all add: kernel_in_range64_def)
  have gp: "gp = \<lparr>kernel =
       Sum (Sum (Sum
         (Product (Constant ((exp (theta ! 0))\<^sup>2)) (ExpSquared (exp (theta ! 1))))
         (Product (Product (Constant ((exp (theta ! 2))\<^sup>2)) (ExpSquared (exp (theta ! 3))))
                  (ExpSineSquared (exp (theta ! 4)) (exp (theta ! 5)))))
         (Product (Constant ((exp (theta ! 6))\<^sup>2))
                  (RationalQuadratic (exp (theta ! 7)) (exp (theta ! 8)))))
         (Product (Constant ((exp (theta ! 9))\<^sup>2)) (ExpSquared (exp (theta ! 10)))),
     X = xs, diag = (exp (theta ! 11))\<^sup>2, mean = theta ! 12\<rparr>"
    using assms(3) build_gp_13[OF assms(1), of xs] by simp
  note e = exp64_representable[OF r(1)] exp64_representable[OF r(2)]
        exp64_representable[OF r(3)] exp64_representable[OF r(4)]
        exp64_representable[OF r(5)] exp64_representable[OF r(6)]
        exp64_representable[OF r(7)]
        square64_exp64_representable(1)[OF r(8)] square64_exp64_representable(1)[OF r(9)]
        square64_exp64_representable(1)[OF r(10)] square64_exp64_representable(1)[OF r(11)]
  show ?thesis
    unfolding build_gp64_13[OF assms(1)] gp e by simp
qed

lemma build_gp64_kernel:
  assumes "length theta = 13" and "kernel_in_range64 theta" and "build_gp64 theta xs = Inr g"
  shows "\<exists>gp. build_gp theta xs = Inr gp \<and> kernel64 g = exact (kernel gp)
            \<and> X64 g = xs \<and> X gp = xs \<and> mean64 g = mean gp \<and> mean gp = theta ! 12
            \<and> diag64 g = square64 (exp64 (theta ! 11))"
proof -
  from build_gp_13[OF assms(1), of xs] obtain gp where
    b: "build_gp theta xs = Inr gp" and x: "X gp = xs" and m: "mean gp = theta ! 12"
    by simp
  from build_gp64_exact[OF assms(1,2) b] assms(3) b x m show ?thesis by auto
qed



lemma kernel_in_range64_zero: "kernel_in_range64 (0 # 0 # 0 # 0 # 0 # 0 # 0 # 0 # 0 # 0 # 0 # rest)"
  using tiny64_less_1 huge64_gt_1 by (simp add: kernel_in_range64_def representable_def)


section \<open>The noise and the training covariance\<close>

lemma fadd_zero: "fadd a (Num 0) = a"
  by (cases a) simp_all

lemma covariance64_shape:
  "length (covariance64 g) = length (X64 g)"
  "i < length (X64 g) \<Longrightarrow> length (covariance64 g ! i) = length (X64 g)"
  by (simp_all add: covariance64_def)

lemma covariance64_entry:
  "i < length (X64 g) \<Longrightarrow> j < length (X64 g) \<Longrightarrow>
   covariance64 g ! i ! j
     = fadd (gram64 (kernel64 g) (X64 g) (X64 g) ! i ! j) (if i = j then diag64 g else Num 0)"
  by (simp add: covariance64_def gram64_def)

lemma covariance64_exact:
  assumes "kernel64 g = exact k" and "admissible k" and "diag64 g = Num d"
    and "i < length (X64 g)" and "j < length (X64 g)"
  shows "covariance64 g ! i ! j
       = Num (evaluate k (X64 g ! i) (X64 g ! j) + (if i = j then d else 0))"
  using assms by (simp add: covariance64_def evaluate64_exact)

lemma all_finite_covariance64:
  assumes "kernel64 g = exact k" and "admissible k" and "diag64 g = Num d"
  shows "all_finite (covariance64 g)"
  using assms by (simp add: all_finite_def covariance64_def list_all_iff evaluate64_exact)

lemma pd_on_cong:
  assumes "\<And>i j. i \<in> S \<Longrightarrow> j \<in> S \<Longrightarrow> m i j = m' i j"
  shows "pd_on m S = pd_on m' S"
proof -
  have "(\<Sum>i\<in>S. \<Sum>j\<in>S. c i * c j * m i j) = (\<Sum>i\<in>S. \<Sum>j\<in>S. c i * c j * m' i j)"
    for c :: "nat \<Rightarrow> real"
    by (intro sum.cong refl) (simp add: assms)
  then show ?thesis by (simp add: pd_on_def)
qed



lemma in_range64_zero: "in_range64 [0, 0, 0, 0, 0, 0, 0, 0, 0, 0, 0, 0, m]"
  using kernel_in_range64_zero[of "[0, m]"] tiny64_less_1 huge64_gt_1
  by (simp add: in_range64_def representable_def)


section \<open>The noiseless posterior mean in double precision\<close>

lemma fsum_Num: "fsum (map (\<lambda>j. Num (f j)) l) = Num (sum_list (map f l))"
  by (induction l) simp_all

lemma condition_mean64_exact:
  assumes k: "kernel64 g = exact (kernel gp)" and a: "admissible (kernel gp)"
    and d: "diag64 g = Num (diag gp)" and x: "X64 g = X gp" and m: "mean64 g = mean gp"
  shows "condition_mean64 g y xnew = condition_mean gp y xnew"
proof -
  have fin: "all_finite (covariance64 g)" by (rule all_finite_covariance64[OF k a d])
  have s: "gauss_solve (\<lambda>i j. num_of (covariance64 g ! i ! j)) (\<lambda>i. y ! i - mean gp)
             [0 ..< length (X gp)]
         = gauss_solve (\<lambda>i j. covariance gp ! i ! j) (\<lambda>i. y ! i - mean gp) [0 ..< length (X gp)]"
  proof (rule gauss_solve_cong)
    fix i j assume "i \<in> set [0 ..< length (X gp)]" "j \<in> set [0 ..< length (X gp)]"
    then have ij: "i < length (X64 g)" "j < length (X64 g)" by (simp_all add: x)
    show "num_of (covariance64 g ! i ! j) = covariance gp ! i ! j"
      using ij by (simp add: covariance64_exact[OF k a d ij] covariance_entry x)
  qed simp
  show ?thesis
    unfolding condition_mean64_def condition_mean_def x m k
    by (simp add: fin s evaluate64_exact[OF a] fsum_Num cong: option.case_cong)
qed




end
